theory Spec2Isabelle
  imports Main "HOL-Library.AList"
begin

section \<open>Python values and exceptions\<close>

text \<open>
  The lexer of \<^verbatim>\<open>resource_lex.py\<close> is Python 2 code (it names \<^verbatim>\<open>long\<close>). An expression
  is a \<^verbatim>\<open>str\<close>: a sequence of 8-bit characters, which is what \<^typ>\<open>string\<close> is.

  A Python float is an IEEE double. Its values are kept as a mantissa and a binary
  exponent, or one of the special values; the lexer never computes with one. The text
  that \<^verbatim>\<open>float()\<close> accepts and the double it rounds to are not modelled: the builtin
  is a parameter \<open>float_of\<close> of every function that calls it.
\<close>

datatype pyfloat = FloatFinite int int | FloatInf bool | FloatNaN

datatype pyval =
    PNone
  | PBool bool
  | PInt int
  | PFloat pyfloat
  | PStr string
  | PList "pyval list"
  | PDict "(string \<times> pyval) list"
  | PProjectionSpec

text \<open>
  \<^verbatim>\<open>ExpressionSyntaxError\<close> carries a formatted message. The model keeps the message
  template with its format arguments, and the position that \<^verbatim>\<open>Annotate\<close> marks in the
  expression, in place of the formatted text.
\<close>

datatype message =
    MoreTokensExpected
  | Expected string
  | UnterminatedQuote char
  | ArgumentExpected
  | NonEmptyKeyNameExpected
  | UnmatchedBracketInKey
  | UnknownTransformFunction pyval
  | ConditionalFilterExpressionExpected
  | TransformFunctionExpected

datatype error =
    ExpressionSyntaxError message nat
  | TypeError
  | AttributeError
  | UnicodeDecodeError
  | PyException string

text \<open>Truth value testing, as Python's \<^verbatim>\<open>if obj\<close> does it.\<close>

fun truth :: "pyval \<Rightarrow> bool" where
  "truth PNone = False"
| "truth (PBool b) = b"
| "truth (PInt n) = (n \<noteq> 0)"
| "truth (PFloat (FloatFinite m e)) = (m \<noteq> 0)"
| "truth (PFloat f) = True"
| "truth (PStr s) = (s \<noteq> [])"
| "truth (PList xs) = (xs \<noteq> [])"
| "truth (PDict kvs) = (kvs \<noteq> [])"
| "truth PProjectionSpec = True"

text \<open>Iteration (\<^verbatim>\<open>for item in items\<close>): a value that is not iterable raises TypeError.\<close>

fun py_iter :: "pyval \<Rightarrow> error + pyval list" where
  "py_iter (PList xs) = Inr xs"
| "py_iter (PStr s) = Inr (map (\<lambda>c. PStr [c]) s)"
| "py_iter (PDict kvs) = Inr (map (\<lambda>kv. PStr (fst kv)) kvs)"
| "py_iter v = Inl TypeError"

subsection \<open>Characters\<close>

definition ESCAPE :: char where
  "ESCAPE = CHR 0x5C"

definition DQUOTE :: char where
  "DQUOTE = CHR 0x22"

definition SQUOTE :: char where
  "SQUOTE = CHR 0x27"

definition QUOTES :: string where
  "QUOTES = [SQUOTE, DQUOTE]"

definition RESERVED_OPERATOR_CHARS :: string where
  "RESERVED_OPERATOR_CHARS = ''[].(){},:=!<>+*/%&|^~@#;?''"

text \<open>\<^verbatim>\<open>str.isspace()\<close> of one 8-bit character: space, and the controls 9 to 13.\<close>

definition isspace :: "char \<Rightarrow> bool" where
  "isspace c = (c \<in> set [CHR 0x20, CHR 0x09, CHR 0x0A, CHR 0x0B, CHR 0x0C, CHR 0x0D])"

definition isdigit :: "char \<Rightarrow> bool" where
  "isdigit c = (c \<in> set ''0123456789'')"

text \<open>The regular expression class \<^verbatim>\<open>\w\<close> on a \<^verbatim>\<open>str\<close>, with no flag: letters, digits, underscore.\<close>

definition is_word_char :: "char \<Rightarrow> bool" where
  "is_word_char c =
     (c \<in> set ''abcdefghijklmnopqrstuvwxyzABCDEFGHIJKLMNOPQRSTUVWXYZ0123456789_'')"

definition is_ascii :: "char \<Rightarrow> bool" where
  "is_ascii c = (of_char c < (128 :: nat))"

subsection \<open>The builtin \<^verbatim>\<open>int()\<close> on a string, and \<^verbatim>\<open>str()\<close> of an integer\<close>

definition digit_val :: "char \<Rightarrow> int" where
  "digit_val c = int (of_char c) - 48"

text \<open>
  Python 2 reads a base 10 integer as: white space, an optional sign, white space,
  one or more digits, white space. Anything else raises ValueError (here \<open>None\<close>).
\<close>

definition py_int :: "string \<Rightarrow> int option" where
  "py_int s =
     (let s1 = dropWhile isspace s;
          neg = (s1 \<noteq> [] \<and> hd s1 = CHR ''-'');
          s2 = (if s1 \<noteq> [] \<and> (hd s1 = CHR ''+'' \<or> hd s1 = CHR ''-'') then tl s1 else s1);
          s3 = dropWhile isspace s2;
          ds = takeWhile isdigit s3;
          rest = dropWhile isspace (dropWhile isdigit s3);
          n = foldl (\<lambda>a d. 10 * a + digit_val d) 0 ds
      in if ds = [] \<or> rest \<noteq> [] then None else Some (if neg then - n else n))"

definition digit_char :: "nat \<Rightarrow> char" where
  "digit_char d = char_of (48 + d)"

fun str_of_nat :: "nat \<Rightarrow> string" where
  "str_of_nat n = (if n < 10 then [digit_char n] else str_of_nat (n div 10) @ [digit_char (n mod 10)])"

declare str_of_nat.simps [simp del]

definition str_of_int :: "int \<Rightarrow> string" where
  "str_of_int i = (if i < 0 then CHR ''-'' # str_of_nat (nat (- i)) else str_of_nat (nat i))"

section \<open>The lexer\<close>

text \<open>
  The state of a \<^verbatim>\<open>Lexer\<close> object: the expression and the index of the next character.
  The third attribute, \<^verbatim>\<open>_defaults\<close>, is never assigned after the constructor and is a
  parameter of the two functions that read it.
\<close>

record Lexer =
  expr :: string
  position :: nat

definition EndOfInput :: "Lexer \<Rightarrow> nat option \<Rightarrow> bool" where
  "EndOfInput lx pos =
     (let p = (case pos of None \<Rightarrow> position lx | Some p \<Rightarrow> p) in p \<ge> length (expr lx))"

definition GetPosition :: "Lexer \<Rightarrow> nat" where
  "GetPosition lx = position lx"

definition SetPosition :: "nat \<Rightarrow> Lexer \<Rightarrow> Lexer" where
  "SetPosition p lx = lx\<lparr>position := p\<rparr>"

function SkipSpace_loop :: "Lexer \<Rightarrow> bool \<times> Lexer" where
  "SkipSpace_loop lx =
     (if \<not> EndOfInput lx None then
        if \<not> isspace (expr lx ! position lx) then (True, lx)
        else SkipSpace_loop (lx\<lparr>position := position lx + 1\<rparr>)
      else (False, lx))"
  by pat_completeness auto
termination
  by (relation "measure (\<lambda>lx. length (expr lx) - position lx)") (auto simp: EndOfInput_def)

declare SkipSpace_loop.simps [simp del]

definition SkipSpace :: "string option \<Rightarrow> Lexer \<Rightarrow> error + (bool \<times> Lexer)" where
  "SkipSpace token lx =
     (case SkipSpace_loop lx of
        (True, lx') \<Rightarrow> Inr (True, lx')
      | (False, lx') \<Rightarrow>
          (case token of
             Some t \<Rightarrow>
               if t \<noteq> [] then Inl (ExpressionSyntaxError (Expected t) (position lx'))
               else Inr (False, lx')
           | None \<Rightarrow> Inr (False, lx')))"

definition IsCharacter :: "string \<Rightarrow> bool \<Rightarrow> bool \<Rightarrow> Lexer \<Rightarrow> error + (char option \<times> Lexer)" where
  "IsCharacter characters peek eoi_ok lx =
     (if EndOfInput lx None then
        if peek \<or> eoi_ok then Inr (None, lx)
        else Inl (ExpressionSyntaxError MoreTokensExpected (position lx))
      else
        let c = expr lx ! position lx in
        if c \<notin> set characters then Inr (None, lx)
        else Inr (Some c, if \<not> peek then lx\<lparr>position := position lx + 1\<rparr> else lx))"

text \<open>\<^verbatim>\<open>if token is None: token = []\<close> followed by \<^verbatim>\<open>token.append(c)\<close>.\<close>

definition started :: "string option \<Rightarrow> string" where
  "started token = (case token of None \<Rightarrow> [] | Some t \<Rightarrow> t)"

text \<open>
  The scanning loop of \<^verbatim>\<open>Token\<close>. Its variables are the open quote, the quoted flag,
  the token's characters (\<open>None\<close> for no token), the count of open parentheses and the
  index \<open>i\<close>. \<open>Token_step\<close> is the body of the loop at a character \<open>c = expr[i]\<close>: it
  ends in \<^verbatim>\<open>break\<close> or in \<^verbatim>\<open>i += 1\<close>.
\<close>

datatype 'a step = Continue 'a | Break 'a

type_synonym scan = "char option \<times> bool \<times> string option \<times> int \<times> nat"

definition Token_step :: "Lexer \<Rightarrow> string \<Rightarrow> bool \<Rightarrow> scan \<Rightarrow> scan step" where
  "Token_step lx terminators balance_parens s =
     (case s of (quote, quoted, token, paren_count, i) \<Rightarrow>
        let c = expr lx ! i in
        if c = ESCAPE \<and> \<not> EndOfInput lx (Some (i + 1)) then
          let c = expr lx ! (i + 1);
              token = started token;
              token = (if c \<noteq> ESCAPE \<and> Some c \<noteq> quote \<and> (quote \<noteq> None \<or> c \<notin> set QUOTES)
                       then token @ [ESCAPE] else token);
              token = token @ [c]
          in Continue (quote, quoted, Some token, paren_count, i + 1 + 1)
        else if Some c = quote then Continue (None, quoted, token, paren_count, i + 1)
        else if quote = None \<and> c \<in> set QUOTES then
          Continue (Some c, True, Some (started token), paren_count, i + 1)
        else if quote = None \<and> balance_parens \<and> c \<in> set ''()'' then
          if c = CHR ''('' then
            Continue (quote, quoted, Some (started token @ [c]), paren_count + 1, i + 1)
          else if c \<in> set terminators \<and> paren_count = 0 then Break s
          else Continue (quote, quoted, Some (started token @ [c]), paren_count - 1, i + 1)
        else if quote = None \<and> paren_count = 0 \<and> c \<in> set terminators then Break s
        else if quote \<noteq> None \<or> \<not> isspace c \<or> (token \<noteq> None \<and> balance_parens) then
          Continue (quote, quoted, Some (started token @ [c]), paren_count, i + 1)
        else if token \<noteq> None then Break s
        else Continue (quote, quoted, token, paren_count, i + 1))"

definition scan_index :: "scan \<Rightarrow> nat" where
  "scan_index s = (case s of (quote, quoted, token, paren_count, i) \<Rightarrow> i)"

lemma Token_step_Continue:
  assumes "Token_step lx T bp s = Continue s'" and "\<not> EndOfInput lx (Some (scan_index s))"
  shows "scan_index s < scan_index s' \<and> scan_index s' \<le> length (expr lx)"
proof -
  obtain q qd tok pc i where s: "s = (q, qd, tok, pc, i)"
    by (cases s) auto
  have i: "i < length (expr lx)"
    using assms(2) by (simp add: s scan_index_def EndOfInput_def)
  show ?thesis
    using assms(1) i unfolding s Token_step_def Let_def scan_index_def EndOfInput_def
    by (auto split: if_splits)
qed

function Token_loop :: "Lexer \<Rightarrow> string \<Rightarrow> bool \<Rightarrow> scan \<Rightarrow> scan" where
  "Token_loop lx terminators balance_parens s =
     (if \<not> EndOfInput lx (Some (scan_index s)) then
        (case Token_step lx terminators balance_parens s of
           Continue s' \<Rightarrow> Token_loop lx terminators balance_parens s'
         | Break s' \<Rightarrow> s')
      else s)"
  by pat_completeness auto
termination
  by (relation "measure (\<lambda>(lx, t, b, s). length (expr lx) - scan_index s)")
     (auto dest: Token_step_Continue)

declare Token_loop.simps [simp del]

text \<open>
  The end of \<^verbatim>\<open>Token\<close>: only a non-empty token with no quoted part is converted,
  first as an integer, then as a float; otherwise the token is returned as it is.
\<close>

definition Token_convert ::
  "(string \<Rightarrow> pyfloat option) \<Rightarrow> bool \<Rightarrow> bool \<Rightarrow> string option \<Rightarrow> pyval" where
  "Token_convert float_of convert quoted token =
     (case token of
        None \<Rightarrow> PNone
      | Some t \<Rightarrow>
          if convert \<and> t \<noteq> [] \<and> \<not> quoted then
            (case py_int t of
               Some n \<Rightarrow> PInt n
             | None \<Rightarrow> (case float_of t of Some f \<Rightarrow> PFloat f | None \<Rightarrow> PStr t))
          else PStr t)"

definition Token ::
  "(string \<Rightarrow> pyfloat option) \<Rightarrow> string \<Rightarrow> bool \<Rightarrow> bool \<Rightarrow> bool \<Rightarrow> Lexer
   \<Rightarrow> error + (pyval \<times> Lexer)" where
  "Token float_of terminators balance_parens space convert lx =
     (case Token_loop lx terminators balance_parens (None, False, None, 0, GetPosition lx) of
        (quote, quoted, token, paren_count, i) \<Rightarrow>
          (case quote of
             Some q \<Rightarrow> Inl (ExpressionSyntaxError (UnterminatedQuote q) (position lx))
           | None \<Rightarrow>
               let lx = SetPosition i lx in
               case (if space then SkipSpace None lx else Inr (True, lx)) of
                 Inl e \<Rightarrow> Inl e
               | Inr (found, lx) \<Rightarrow> Inr (Token_convert float_of convert quoted token, lx)))"

text \<open>\<^verbatim>\<open>SkipSpace()\<close> with no token named does not raise, so neither does the end of \<^verbatim>\<open>Token\<close>.\<close>

lemma SkipSpace_None: "SkipSpace None lx = Inr (SkipSpace_loop lx)"
  by (cases "SkipSpace_loop lx") (auto simp: SkipSpace_def split: bool.splits)

lemma Token_eq:
  "Token float_of terminators balance_parens space convert lx =
     (case Token_loop lx terminators balance_parens (None, False, None, 0, GetPosition lx) of
        (quote, quoted, token, paren_count, i) \<Rightarrow>
          (case quote of
             Some q \<Rightarrow> Inl (ExpressionSyntaxError (UnterminatedQuote q) (position lx))
           | None \<Rightarrow>
               let lx = SetPosition i lx;
                   lx = (if space then snd (SkipSpace_loop lx) else lx)
               in Inr (Token_convert float_of convert quoted token, lx)))"
  by (auto simp: Token_def SkipSpace_None Let_def split: prod.splits option.splits)

subsection \<open>Where the position stands after a call\<close>

lemma Token_step_Break: "Token_step lx T bp s = Break s' \<Longrightarrow> s' = s"
  by (cases s) (auto simp: Token_step_def Let_def split: if_splits)

lemma Token_loop_index:
  "Token_loop lx T bp s = s \<or>
   (scan_index s < scan_index (Token_loop lx T bp s) \<and>
    scan_index (Token_loop lx T bp s) \<le> length (expr lx))"
proof (induction lx T bp s rule: Token_loop.induct)
  case (1 lx T bp s)
  show ?case
  proof (cases "EndOfInput lx (Some (scan_index s))")
    case True
    then show ?thesis by (simp add: Token_loop.simps)
  next
    case False
    show ?thesis
    proof (cases "Token_step lx T bp s")
      case (Break s')
      then show ?thesis
        using False Token_step_Break [OF Break] by (simp add: Token_loop.simps)
    next
      case (Continue s')
      have eq: "Token_loop lx T bp s = Token_loop lx T bp s'"
        using False Continue by (simp add: Token_loop.simps)
      have adv: "scan_index s < scan_index s' \<and> scan_index s' \<le> length (expr lx)"
        using Token_step_Continue [OF Continue False] .
      from "1.IH" [OF False Continue] adv show ?thesis
        unfolding eq by auto
    qed
  qed
qed

lemma SkipSpace_loop_position:
  "SkipSpace_loop lx = (b, lx') \<Longrightarrow> expr lx' = expr lx \<and> position lx \<le> position lx'"
proof (induction lx arbitrary: b lx' rule: SkipSpace_loop.induct)
  case (1 lx)
  show ?case
  proof (cases "\<not> EndOfInput lx None \<and> isspace (expr lx ! position lx)")
    case True
    then have "SkipSpace_loop (lx\<lparr>position := position lx + 1\<rparr>) = (b, lx')"
      using "1.prems" by (simp add: SkipSpace_loop.simps [of lx])
    from "1.IH" [OF _ _ this] True show ?thesis by simp
  next
    case False
    then have "lx' = lx"
      using "1.prems" by (auto simp: SkipSpace_loop.simps [of lx] split: if_splits)
    then show ?thesis by simp
  qed
qed

lemma Token_position:
  assumes "Token float_of T bp sp cv lx = Inr (v, lx')"
  shows "expr lx' = expr lx \<and> position lx \<le> position lx' \<and>
         (v \<noteq> PNone \<longrightarrow> position lx < position lx' \<and> position lx < length (expr lx))"
proof -
  define s where "s = (None :: char option, False, None :: string option, 0 :: int, GetPosition lx)"
  obtain q qd tok pc i where r: "Token_loop lx T bp s = (q, qd, tok, pc, i)"
    by (cases "Token_loop lx T bp s") auto
  have q: "q = None"
    using assms r by (auto simp: Token_eq s_def split: option.splits)
  define lx1 where "lx1 = SetPosition i lx"
  define lx2 where "lx2 = (if sp then snd (SkipSpace_loop lx1) else lx1)"
  have res: "v = Token_convert float_of cv qd tok" "lx' = lx2"
    using assms r q by (auto simp: Token_eq s_def lx1_def lx2_def Let_def)
  have lx2: "expr lx2 = expr lx \<and> i \<le> position lx2"
    using SkipSpace_loop_position [of lx1 "fst (SkipSpace_loop lx1)" "snd (SkipSpace_loop lx1)"]
    by (auto simp: lx2_def lx1_def SetPosition_def)
  have idx: "(tok = None \<and> i = position lx) \<or> (position lx < i \<and> i \<le> length (expr lx))"
    using Token_loop_index [of lx T bp s] r
    by (auto simp: s_def scan_index_def GetPosition_def)
  have "v \<noteq> PNone \<Longrightarrow> tok \<noteq> None"
    using res(1) by (cases tok) (auto simp: Token_convert_def)
  with idx lx2 res(2) show ?thesis by auto
qed

lemma IsCharacter_position:
  assumes "IsCharacter cs peek eoi_ok lx = Inr (r, lx')"
  shows "expr lx' = expr lx \<and> position lx \<le> position lx' \<and>
         (r \<noteq> None \<longrightarrow> position lx < length (expr lx) \<and>
            (\<not> peek \<longrightarrow> position lx' = position lx + 1))"
  using assms by (auto simp: IsCharacter_def EndOfInput_def Let_def split: if_splits)

subsection \<open>Argument lists\<close>

text \<open>
  \<^verbatim>\<open>Args\<close>: the variables of its loop are \<^verbatim>\<open>required\<close> and \<^verbatim>\<open>args\<close>. The loop ends by
  \<^verbatim>\<open>break\<close> after a closing parenthesis, or by raising.
\<close>

function Args_loop ::
  "(string \<Rightarrow> pyfloat option) \<Rightarrow> bool \<Rightarrow> bool \<Rightarrow> pyval list \<Rightarrow> Lexer
   \<Rightarrow> error + (pyval list \<times> Lexer)" where
  "Args_loop float_of convert required args lx =
     (let here = GetPosition lx in
      case Token float_of '',)'' True True convert lx of
        Inl e \<Rightarrow> Inl e
      | Inr (arg, lx) \<Rightarrow>
          (case IsCharacter '')'' False False lx of
             Inl e \<Rightarrow> Inl e
           | Inr (end, lx) \<Rightarrow>
               (case (if arg \<noteq> PNone then Inr (args @ [arg])
                      else if required \<or> end = None
                        then Inl (ExpressionSyntaxError ArgumentExpected here)
                      else Inr args) of
                  Inl e \<Rightarrow> Inl e
                | Inr args \<Rightarrow>
                    if end \<noteq> None then Inr (args, lx)
                    else
                      (case IsCharacter '','' False False lx of
                         Inl e \<Rightarrow> Inl e
                       | Inr (comma, lx) \<Rightarrow> Args_loop float_of convert True args lx))))"
  by pat_completeness auto
termination
proof (relation "measure (\<lambda>(f, cv, r, args, lx). length (expr lx) - position lx)", goal_cases)
  case 1
  show ?case by simp
next
  case (2 float_of convert required args lx here x2 arg lx1 x2a end' lx2 x2b x2c comma lx3)
  have arg: "arg \<noteq> PNone"
    using 2 by (auto split: if_splits)
  have t: "Token float_of '',)'' True True convert lx = Inr (arg, lx1)"
    using 2 by simp
  have c2: "IsCharacter '')'' False False lx1 = Inr (end', lx2)"
    using 2 by simp
  have c3: "IsCharacter '','' False False lx2 = Inr (comma, lx3)"
    using 2 by simp
  from Token_position [OF t] IsCharacter_position [OF c2] IsCharacter_position [OF c3] arg
  show ?case by auto
qed

declare Args_loop.simps [simp del]

definition Args ::
  "(string \<Rightarrow> pyfloat option) \<Rightarrow> bool \<Rightarrow> Lexer \<Rightarrow> error + (pyval list \<times> Lexer)" where
  "Args float_of convert lx = Args_loop float_of convert False [] lx"

lemma Args_loop_position:
  "Args_loop float_of convert required args lx = Inr (args', lx') \<Longrightarrow>
     expr lx' = expr lx \<and> position lx < position lx' \<and> position lx < length (expr lx)"
proof (induction "length (expr lx) - position lx" arbitrary: required args lx rule: less_induct)
  case less
  note prem = less.prems [unfolded Args_loop.simps [of float_of convert required args lx] Let_def]
  obtain arg lx1 where t: "Token float_of '',)'' True True convert lx = Inr (arg, lx1)"
    using prem by (auto split: sum.splits)
  obtain end' lx2 where c2: "IsCharacter '')'' False False lx1 = Inr (end', lx2)"
    using prem t by (auto split: sum.splits)
  note p = Token_position [OF t] IsCharacter_position [OF c2]
  show ?case
  proof (cases end')
    case (Some x)
    then have "lx' = lx2"
      using prem t c2 by (auto split: sum.splits if_splits)
    with p Some show ?thesis by auto
  next
    case None
    have arg: "arg \<noteq> PNone"
      using prem t c2 None by (auto split: if_splits)
    obtain comma lx3 where c3: "IsCharacter '','' False False lx2 = Inr (comma, lx3)"
      using prem t c2 None arg by (auto split: sum.splits)
    have r: "Args_loop float_of convert True (args @ [arg]) lx3 = Inr (args', lx')"
      using prem t c2 None arg c3 by simp
    note q = p IsCharacter_position [OF c3]
    have "length (expr lx3) - position lx3 < length (expr lx) - position lx"
      using q arg by auto
    from less.hyps [OF this r] q arg show ?thesis by auto
  qed
qed

subsection \<open>The defaults: aliases and transform functions\<close>

text \<open>
  A transform function object. The lexer looks at three things of it: which function it
  is (\<^verbatim>\<open>transform.func == resource_transform.TransformAlways\<close>), whether its docstring
  holds \<^verbatim>\<open>PROJECTION_ARG_DOC\<close>, and whether it has parameters with defaults
  (\<^verbatim>\<open>func_defaults\<close>). \<open>call\<close> is the function applied to positional and keyword
  arguments; it may raise.
\<close>

datatype func_ident = TransformAlways | TransformMap | TransformIf | TransformNamed string

record pyfunc =
  ident :: func_ident
  func_doc_has_projection_arg :: bool
  func_defaults :: bool
  call :: "pyval list \<Rightarrow> (string \<times> pyval) list \<Rightarrow> error + pyval"

record ProjectionSpec =
  aliases :: "string \<rightharpoonup> pyval list"
  symbols :: "string \<rightharpoonup> pyfunc"

text \<open>A dictionary with string keys, looked up with any value: \<^verbatim>\<open>name in d\<close>, \<^verbatim>\<open>d[name]\<close>.\<close>

definition lookup :: "(string \<rightharpoonup> 'a) \<Rightarrow> pyval \<Rightarrow> 'a option" where
  "lookup d name = (case name of PStr n \<Rightarrow> d n | _ \<Rightarrow> None)"

subsection \<open>Keys\<close>

text \<open>The inner loop of \<^verbatim>\<open>Key\<close>: \<^verbatim>\<open>while self.IsCharacter('[', eoi_ok=True)\<close>.\<close>

function Key_index_loop ::
  "(string \<Rightarrow> pyfloat option) \<Rightarrow> pyval list \<Rightarrow> Lexer \<Rightarrow> error + (pyval list \<times> Lexer)" where
  "Key_index_loop float_of key lx =
     (case IsCharacter ''['' False True lx of
        Inl e \<Rightarrow> Inl e
      | Inr (bracket, lx) \<Rightarrow>
          if bracket \<noteq> None then
            (case Token float_of '']'' False True True lx of
               Inl e \<Rightarrow> Inl e
             | Inr (index, lx) \<Rightarrow>
                 (case IsCharacter '']'' False False lx of
                    Inl e \<Rightarrow> Inl e
                  | Inr (closing, lx) \<Rightarrow> Key_index_loop float_of (key @ [index]) lx))
          else Inr (key, lx))"
  by pat_completeness auto
termination
proof (relation "measure (\<lambda>(f, key, lx). length (expr lx) - position lx)", goal_cases)
  case 1
  show ?case by simp
next
  case (2 float_of key lx x2 bracket lx1 x2a index lx2 x2b closing lx3)
  have c1: "IsCharacter ''['' False True lx = Inr (bracket, lx1)"
    using 2 by simp
  have t: "Token float_of '']'' False True True lx1 = Inr (index, lx2)"
    using 2 by simp
  have c3: "IsCharacter '']'' False False lx2 = Inr (closing, lx3)"
    using 2 by simp
  from IsCharacter_position [OF c1] Token_position [OF t] IsCharacter_position [OF c3] 2(3)
  show ?case by auto
qed

declare Key_index_loop.simps [simp del]

lemma Key_index_loop_position:
  "Key_index_loop float_of key lx = Inr (key', lx') \<Longrightarrow>
     expr lx' = expr lx \<and> position lx \<le> position lx'"
proof (induction float_of key lx arbitrary: key' lx' rule: Key_index_loop.induct)
  case (1 float_of key lx)
  obtain bracket lx1 where c1: "IsCharacter ''['' False True lx = Inr (bracket, lx1)"
    using "1.prems" by (subst (asm) Key_index_loop.simps) (auto split: sum.splits)
  show ?case
  proof (cases bracket)
    case None
    then have "lx' = lx1"
      using "1.prems" c1 by (subst (asm) Key_index_loop.simps) simp
    with IsCharacter_position [OF c1] show ?thesis by simp
  next
    case (Some b)
    obtain index lx2 where t: "Token float_of '']'' False True True lx1 = Inr (index, lx2)"
      using "1.prems" c1 Some by (subst (asm) Key_index_loop.simps) (auto split: sum.splits)
    obtain closing lx3 where c3: "IsCharacter '']'' False False lx2 = Inr (closing, lx3)"
      using "1.prems" c1 Some t by (subst (asm) Key_index_loop.simps) (auto split: sum.splits)
    have r: "Key_index_loop float_of (key @ [index]) lx3 = Inr (key', lx')"
      using "1.prems" c1 Some t c3 by (subst (asm) Key_index_loop.simps) simp
    have b: "bracket \<noteq> None"
      using Some by simp
    from "1.IH" [OF c1 refl b t refl c3 refl r]
      IsCharacter_position [OF c1] Token_position [OF t] IsCharacter_position [OF c3]
    show ?thesis by simp
  qed
qed

text \<open>
  The body of the outer loop of \<^verbatim>\<open>Key\<close>, in two parts. \<open>Key_name\<close> is what follows the
  name token: a non-empty name is appended, or replaced by its alias when it is the first
  of the key and no \<^verbatim>\<open>(\<close> follows; with no name, either a \<^verbatim>\<open>[\<close> follows, or the key is
  the single \<^verbatim>\<open>.\<close> (a \<^verbatim>\<open>break\<close>), or the name is missing.
\<close>

definition Key_name ::
  "ProjectionSpec \<Rightarrow> pyval list \<Rightarrow> pyval \<Rightarrow> nat \<Rightarrow> Lexer \<Rightarrow> error + (pyval list \<times> Lexer) step" where
  "Key_name defaults key name here lx =
     (if truth name then
        (case IsCharacter ''('' True True lx of
           Inl e \<Rightarrow> Inl e
         | Inr (paren, lx) \<Rightarrow>
             let is_not_function = (paren = None) in
             if key = [] \<and> is_not_function \<and> lookup (aliases defaults) name \<noteq> None
             then Inr (Continue (key @ the (lookup (aliases defaults) name), lx))
             else Inr (Continue (key @ [name], lx)))
      else
        (case IsCharacter ''['' True False lx of
           Inl e \<Rightarrow> Inl e
         | Inr (bracket, lx) \<Rightarrow>
             if bracket = None then
               if key = [] then
                 (case IsCharacter ''.'' False False lx of
                    Inl e \<Rightarrow> Inl e
                  | Inr (dot, lx) \<Rightarrow>
                      if dot \<noteq> None then
                        if EndOfInput lx None then Inr (Break (key, lx))
                        else
                          (case IsCharacter RESERVED_OPERATOR_CHARS True True lx of
                             Inl e \<Rightarrow> Inl e
                           | Inr (reserved, lx) \<Rightarrow>
                               if reserved \<noteq> None then Inr (Break (key, lx))
                               else Inl (ExpressionSyntaxError NonEmptyKeyNameExpected here))
                      else Inl (ExpressionSyntaxError NonEmptyKeyNameExpected here))
               else Inl (ExpressionSyntaxError NonEmptyKeyNameExpected here)
             else Inr (Continue (key, lx))))"

definition Key_step ::
  "(string \<Rightarrow> pyfloat option) \<Rightarrow> ProjectionSpec \<Rightarrow> pyval list \<Rightarrow> Lexer
   \<Rightarrow> error + (pyval list \<times> Lexer) step" where
  "Key_step float_of defaults key lx =
     (let here = GetPosition lx in
      case Token float_of RESERVED_OPERATOR_CHARS False False False lx of
        Inl e \<Rightarrow> Inl e
      | Inr (name, lx) \<Rightarrow>
          (case Key_name defaults key name here lx of
             Inl e \<Rightarrow> Inl e
           | Inr (Break r) \<Rightarrow> Inr (Break r)
           | Inr (Continue (key, lx)) \<Rightarrow>
               if EndOfInput lx None then Inr (Break (key, lx))
               else
                 (case IsCharacter '']'' False False lx of
                    Inl e \<Rightarrow> Inl e
                  | Inr (closing, lx) \<Rightarrow>
                      if closing \<noteq> None
                      then Inl (ExpressionSyntaxError UnmatchedBracketInKey here)
                      else
                        (case Key_index_loop float_of key lx of
                           Inl e \<Rightarrow> Inl e
                         | Inr (key, lx) \<Rightarrow>
                             (case IsCharacter ''.'' False True lx of
                                Inl e \<Rightarrow> Inl e
                              | Inr (dot, lx) \<Rightarrow>
                                  if dot = None then Inr (Break (key, lx))
                                  else if EndOfInput lx None
                                  then Inl (ExpressionSyntaxError NonEmptyKeyNameExpected
                                              (position lx))
                                  else Inr (Continue (key, lx)))))))"

lemma Key_name_position:
  "Key_name defaults key name here lx = Inr r \<Longrightarrow>
     (case r of Continue (key', lx') \<Rightarrow> expr lx' = expr lx \<and> position lx \<le> position lx'
              | Break (key', lx') \<Rightarrow> expr lx' = expr lx \<and> position lx \<le> position lx')"
  by (auto simp: Key_name_def IsCharacter_def Let_def split: if_splits)

lemma Key_step_position:
  assumes "Key_step float_of defaults key lx = Inr r"
  shows "case r of
           Continue (key', lx') \<Rightarrow>
             expr lx' = expr lx \<and> position lx < position lx' \<and> position lx < length (expr lx)
         | Break (key', lx') \<Rightarrow> expr lx' = expr lx \<and> position lx \<le> position lx'"
proof -
  obtain name lx1 where t: "Token float_of RESERVED_OPERATOR_CHARS False False False lx = Inr (name, lx1)"
    using assms by (auto simp: Key_step_def Let_def split: sum.splits)
  obtain r1 where n: "Key_name defaults key name (GetPosition lx) lx1 = Inr r1"
    using assms t by (auto simp: Key_step_def Let_def split: sum.splits)
  note p1 = Token_position [OF t] Key_name_position [OF n]
  show ?thesis
  proof (cases r1)
    case (Break b)
    then have "r = Break b"
      using assms t n by (simp add: Key_step_def Let_def)
    with p1 Break show ?thesis by (auto split: prod.splits)
  next
    case (Continue c)
    obtain key2 lx2 where c: "c = (key2, lx2)"
      by (cases c) auto
    show ?thesis
    proof (cases "EndOfInput lx2 None")
      case True
      then have "r = Break (key2, lx2)"
        using assms t n Continue c by (simp add: Key_step_def Let_def)
      with p1 Continue c show ?thesis by auto
    next
      case False
      obtain closing lx3 where c3: "IsCharacter '']'' False False lx2 = Inr (closing, lx3)"
        using assms t n Continue c False by (auto simp: Key_step_def Let_def split: sum.splits)
      have cl: "closing = None"
        using assms t n Continue c False c3 by (auto simp: Key_step_def Let_def split: if_splits)
      obtain key4 lx4 where k: "Key_index_loop float_of key2 lx3 = Inr (key4, lx4)"
        using assms t n Continue c False c3 cl by (auto simp: Key_step_def Let_def split: sum.splits)
      obtain dot lx5 where d: "IsCharacter ''.'' False True lx4 = Inr (dot, lx5)"
        using assms t n Continue c False c3 cl k by (auto simp: Key_step_def Let_def split: sum.splits)
      note p2 = IsCharacter_position [OF c3] Key_index_loop_position [OF k] IsCharacter_position [OF d]
      show ?thesis
      proof (cases dot)
        case None
        then have "r = Break (key4, lx5)"
          using assms t n Continue c False c3 cl k d by (simp add: Key_step_def Let_def)
        with p1 p2 Continue c show ?thesis by auto
      next
        case (Some x)
        then have "r = Continue (key4, lx5)"
          using assms t n Continue c False c3 cl k d
          by (auto simp: Key_step_def Let_def split: if_splits)
        with p1 p2 Continue c Some show ?thesis by auto
      qed
    qed
  qed
qed

function Key_loop ::
  "(string \<Rightarrow> pyfloat option) \<Rightarrow> ProjectionSpec \<Rightarrow> pyval list \<Rightarrow> Lexer
   \<Rightarrow> error + (pyval list \<times> Lexer)" where
  "Key_loop float_of defaults key lx =
     (if \<not> EndOfInput lx None then
        (case Key_step float_of defaults key lx of
           Inl e \<Rightarrow> Inl e
         | Inr (Break r) \<Rightarrow> Inr r
         | Inr (Continue (key, lx)) \<Rightarrow> Key_loop float_of defaults key lx)
      else Inr (key, lx))"
  by pat_completeness auto
termination
proof (relation "measure (\<lambda>(f, d, key, lx). length (expr lx) - position lx)", goal_cases)
  case 1
  show ?case by simp
next
  case (2 float_of defaults key lx r c key' lx')
  then have "Key_step float_of defaults key lx = Inr (Continue (key', lx'))"
    by simp
  from Key_step_position [OF this] show ?case by auto
qed

declare Key_loop.simps [simp del]

definition Key ::
  "(string \<Rightarrow> pyfloat option) \<Rightarrow> ProjectionSpec \<Rightarrow> Lexer \<Rightarrow> error + (pyval list \<times> Lexer)" where
  "Key float_of defaults lx = Key_loop float_of defaults [] lx"

lemma Key_loop_position:
  "Key_loop float_of defaults key lx = Inr (key', lx') \<Longrightarrow>
     expr lx' = expr lx \<and> position lx \<le> position lx'"
proof (induction float_of defaults key lx arbitrary: key' lx' rule: Key_loop.induct)
  case (1 float_of defaults key lx)
  show ?case
  proof (cases "EndOfInput lx None")
    case True
    then show ?thesis
      using "1.prems" by (simp add: Key_loop.simps [of _ _ _ lx])
  next
    case False
    obtain r where st: "Key_step float_of defaults key lx = Inr r"
      using "1.prems" False by (auto simp: Key_loop.simps [of _ _ _ lx] split: sum.splits)
    show ?thesis
    proof (cases r)
      case (Break b)
      then have "b = (key', lx')"
        using "1.prems" False st by (simp add: Key_loop.simps [of _ _ _ lx])
      with Key_step_position [OF st] Break show ?thesis by simp
    next
      case (Continue c)
      obtain key1 lx1 where c: "c = (key1, lx1)"
        by (cases c) auto
      have r: "Key_loop float_of defaults key1 lx1 = Inr (key', lx')"
        using "1.prems" False st Continue c by (simp add: Key_loop.simps [of _ _ _ lx])
      from "1.IH" [OF False st Continue c [symmetric] r] Key_step_position [OF st] Continue c
      show ?thesis by simp
    qed
  qed
qed

subsection \<open>Aliases are read for the first name only\<close>

lemma Key_index_loop_append:
  "Key_index_loop float_of key lx = Inr (key', lx') \<Longrightarrow> \<exists>ks. key' = key @ ks"
proof (induction "length (expr lx) - position lx" arbitrary: key lx rule: less_induct)
  case less
  note prem = less.prems [unfolded Key_index_loop.simps [of float_of key lx]]
  obtain bracket lx1 where c1: "IsCharacter ''['' False True lx = Inr (bracket, lx1)"
    using prem by (auto split: sum.splits)
  show ?case
  proof (cases bracket)
    case None
    then show ?thesis
      using prem c1 by simp
  next
    case (Some b)
    obtain index lx2 where t: "Token float_of '']'' False True True lx1 = Inr (index, lx2)"
      using prem c1 Some by (auto split: sum.splits)
    obtain closing lx3 where c3: "IsCharacter '']'' False False lx2 = Inr (closing, lx3)"
      using prem c1 Some t by (auto split: sum.splits)
    have r: "Key_index_loop float_of (key @ [index]) lx3 = Inr (key', lx')"
      using prem c1 Some t c3 by simp
    have "length (expr lx3) - position lx3 < length (expr lx) - position lx"
      using IsCharacter_position [OF c1] Token_position [OF t] IsCharacter_position [OF c3] Some
      by auto
    from less.hyps [OF this r] show ?thesis by auto
  qed
qed

lemma Key_name_defaults:
  "key \<noteq> [] \<Longrightarrow> Key_name d key nm here lx = Key_name d' key nm here lx"
  by (auto simp: Key_name_def Let_def split: sum.splits)

lemma Key_step_defaults:
  "key \<noteq> [] \<Longrightarrow> Key_step float_of d key lx = Key_step float_of d' key lx"
  by (simp add: Key_step_def Let_def Key_name_defaults [of key d _ _ _ d']
        cong: sum.case_cong prod.case_cong)

lemma Key_name_Continue_nonempty:
  "Key_name d key nm here lx = Inr (Continue (key', lx')) \<Longrightarrow> key \<noteq> [] \<Longrightarrow> key' \<noteq> []"
  by (auto simp: Key_name_def Let_def split: if_splits sum.splits)

lemma Key_step_Continue_nonempty:
  assumes "Key_step float_of d key lx = Inr (Continue (key', lx'))" and "key \<noteq> []"
  shows "key' \<noteq> []"
proof -
  note st = assms(1) [unfolded Key_step_def Let_def]
  obtain nm lx1 where t: "Token float_of RESERVED_OPERATOR_CHARS False False False lx = Inr (nm, lx1)"
    using st by (auto split: sum.splits)
  obtain key2 lx2 where n: "Key_name d key nm (GetPosition lx) lx1 = Inr (Continue (key2, lx2))"
    using st t by (auto split: sum.splits step.splits)
  have k2: "key2 \<noteq> []"
    using Key_name_Continue_nonempty [OF n assms(2)] .
  obtain closing lx3 where c3: "IsCharacter '']'' False False lx2 = Inr (closing, lx3)"
    using st t n by (auto split: sum.splits if_splits)
  obtain key4 lx4 where k: "Key_index_loop float_of key2 lx3 = Inr (key4, lx4)"
    using st t n c3 by (auto split: sum.splits if_splits)
  have "key' = key4"
    using st t n c3 k by (auto split: sum.splits if_splits)
  with Key_index_loop_append [OF k] k2 show ?thesis by auto
qed

lemma Key_loop_defaults:
  "key \<noteq> [] \<Longrightarrow> Key_loop float_of d key lx = Key_loop float_of d' key lx"
proof (induction "length (expr lx) - position lx" arbitrary: key lx rule: less_induct)
  case less
  show ?case
  proof (cases "EndOfInput lx None")
    case True
    then show ?thesis
      by (simp add: Key_loop.simps [of _ _ key lx])
  next
    case False
    obtain r where s: "Key_step float_of d key lx = r"
      by simp
    have s': "Key_step float_of d' key lx = r"
      using Key_step_defaults [OF less.prems, of float_of d' lx d] s by simp
    show ?thesis
    proof (cases r)
      case (Inl e)
      show ?thesis
        using False by (simp add: Key_loop.simps [of _ _ key lx] s s' Inl)
    next
      case (Inr v)
      show ?thesis
      proof (cases v)
        case (Break b)
        show ?thesis
          using False by (simp add: Key_loop.simps [of _ _ key lx] s s' Inr Break)
      next
        case (Continue c)
        obtain key1 lx1 where c: "c = (key1, lx1)"
          by (cases c) auto
        have s1: "Key_step float_of d key lx = Inr (Continue (key1, lx1))"
          using s Inr Continue c by simp
        have m: "length (expr lx1) - position lx1 < length (expr lx) - position lx"
          using Key_step_position [OF s1] by auto
        have k1: "key1 \<noteq> []"
          using Key_step_Continue_nonempty [OF s1 less.prems] .
        from less.hyps [OF m k1] show ?thesis
          using False by (simp add: Key_loop.simps [of _ _ key lx] s s' Inr Continue c)
      qed
    qed
  qed
qed

subsection \<open>When the parsed key is empty\<close>

lemma IsCharacter_Some:
  "IsCharacter cs peek eoi_ok lx = Inr (Some c, lx') \<Longrightarrow>
     position lx < length (expr lx) \<and> c = expr lx ! position lx \<and> c \<in> set cs \<and>
     lx' = (if peek then lx else lx\<lparr>position := position lx + 1\<rparr>)"
  by (auto simp: IsCharacter_def EndOfInput_def Let_def split: if_splits)

lemma IsCharacter_None:
  "IsCharacter cs peek eoi_ok lx = Inr (None, lx') \<Longrightarrow>
     lx' = lx \<and> (EndOfInput lx None \<or> expr lx ! position lx \<notin> set cs)"
  by (auto simp: IsCharacter_def Let_def split: if_splits)

lemma Key_name_Break:
  assumes "Key_name d key nm here lx = Inr (Break (key', lx'))"
  shows "key' = [] \<and> 0 < position lx' \<and> expr lx' ! (position lx' - 1) = CHR ''.'' \<and>
         (EndOfInput lx' None \<or> expr lx' ! position lx' \<in> set RESERVED_OPERATOR_CHARS)"
proof -
  note st = assms [unfolded Key_name_def Let_def]
  have nt: "\<not> truth nm"
    using st by (auto split: if_splits sum.splits)
  obtain bracket lx1 where c1: "IsCharacter ''['' True False lx = Inr (bracket, lx1)"
    using st nt by (auto split: sum.splits)
  have b: "bracket = None" and k: "key = []"
    using st nt c1 by (auto split: if_splits)
  obtain dot lx2 where c2: "IsCharacter ''.'' False False lx1 = Inr (dot, lx2)"
    using st nt c1 b k by (auto split: sum.splits)
  have d: "dot \<noteq> None"
    using st nt c1 b k c2 by (auto split: if_splits)
  then obtain c where dc: "dot = Some c"
    by auto
  note p2 = IsCharacter_Some [OF c2 [unfolded dc]]
  have dotchar: "0 < position lx2 \<and> expr lx2 ! (position lx2 - 1) = CHR ''.''"
    using p2 by auto
  show ?thesis
  proof (cases "EndOfInput lx2 None")
    case True
    then have "key' = [] \<and> lx' = lx2"
      using st nt c1 b k c2 d by auto
    with dotchar True show ?thesis by simp
  next
    case False
    obtain reserved lx3 where c3: "IsCharacter RESERVED_OPERATOR_CHARS True True lx2 = Inr (reserved, lx3)"
      using st nt c1 b k c2 d False by (auto split: sum.splits)
    have r: "reserved \<noteq> None"
      using st nt c1 b k c2 d False c3 by (auto split: if_splits)
    then obtain c' where rc: "reserved = Some c'"
      by auto
    have "key' = [] \<and> lx' = lx3"
      using st nt c1 b k c2 d False c3 r by auto
    with IsCharacter_Some [OF c3 [unfolded rc]] dotchar show ?thesis by auto
  qed
qed

lemma Key_name_Continue_first:
  assumes "Key_name d [] nm here lx = Inr (Continue (key', lx'))"
    and "\<forall>n. aliases d n \<noteq> Some []"
  shows "key' \<noteq> [] \<or> (lx' = lx \<and> position lx < length (expr lx) \<and> expr lx ! position lx = CHR ''['')"
proof (cases "truth nm")
  case True
  obtain paren lx1 where c1: "IsCharacter ''('' True True lx = Inr (paren, lx1)"
    using assms(1) True by (auto simp: Key_name_def split: sum.splits)
  have "lookup (aliases d) nm \<noteq> None \<Longrightarrow> the (lookup (aliases d) nm) \<noteq> []"
    using assms(2) by (cases nm) (auto simp: lookup_def)
  then show ?thesis
    using assms(1) True c1 by (auto simp: Key_name_def Let_def split: if_splits)
next
  case False
  obtain bracket lx1 where c1: "IsCharacter ''['' True False lx = Inr (bracket, lx1)"
    using assms(1) False by (auto simp: Key_name_def split: sum.splits)
  have "bracket \<noteq> None"
    using assms(1) False c1 by (auto simp: Key_name_def split: if_splits sum.splits)
  then obtain c where b: "bracket = Some c"
    by auto
  have "lx' = lx1"
    using assms(1) False c1 b by (auto simp: Key_name_def)
  with IsCharacter_Some [OF c1 [unfolded b]] show ?thesis by auto
qed

lemma Key_index_loop_bracket:
  assumes "Key_index_loop float_of key lx = Inr (key', lx')"
    and "position lx < length (expr lx)" and "expr lx ! position lx = CHR ''[''"
  shows "key' \<noteq> []"
proof -
  note st = assms(1) [unfolded Key_index_loop.simps [of float_of key lx]]
  have c1: "IsCharacter ''['' False True lx = Inr (Some CHR ''['', lx\<lparr>position := position lx + 1\<rparr>)"
    using assms(2,3) by (simp add: IsCharacter_def EndOfInput_def)
  obtain index lx2
    where t: "Token float_of '']'' False True True (lx\<lparr>position := position lx + 1\<rparr>) = Inr (index, lx2)"
    using st c1 by (auto split: sum.splits)
  obtain closing lx3 where c3: "IsCharacter '']'' False False lx2 = Inr (closing, lx3)"
    using st c1 t by (auto split: sum.splits)
  have "Key_index_loop float_of (key @ [index]) lx3 = Inr (key', lx')"
    using st c1 t c3 by simp
  from Key_index_loop_append [OF this] show ?thesis by auto
qed

lemma Key_step_first:
  assumes "Key_step float_of d [] lx = Inr res" and "\<forall>n. aliases d n \<noteq> Some []"
  shows "case res of
           Continue (key', lx') \<Rightarrow> key' \<noteq> []
         | Break (key', lx') \<Rightarrow>
             key' \<noteq> [] \<or>
             (0 < position lx' \<and> expr lx' ! (position lx' - 1) = CHR ''.'' \<and>
              (EndOfInput lx' None \<or> expr lx' ! position lx' \<in> set RESERVED_OPERATOR_CHARS))"
proof -
  note st = assms(1) [unfolded Key_step_def Let_def]
  obtain nm lx1 where t: "Token float_of RESERVED_OPERATOR_CHARS False False False lx = Inr (nm, lx1)"
    using st by (auto split: sum.splits)
  obtain r1 where n: "Key_name d [] nm (GetPosition lx) lx1 = Inr r1"
    using st t by (auto split: sum.splits)
  show ?thesis
  proof (cases r1)
    case (Break b)
    obtain key2 lx2 where b: "b = (key2, lx2)"
      by (cases b) auto
    have "res = Break (key2, lx2)"
      using st t n Break b by simp
    with Key_name_Break [OF n [unfolded Break b]] show ?thesis by simp
  next
    case (Continue c)
    obtain key2 lx2 where c: "c = (key2, lx2)"
      by (cases c) auto
    note first = Key_name_Continue_first [OF n [unfolded Continue c] assms(2)]
    show ?thesis
    proof (cases "EndOfInput lx2 None")
      case True
      then have "res = Break (key2, lx2)"
        using st t n Continue c by simp
      with first True show ?thesis by (auto simp: EndOfInput_def)
    next
      case False
      obtain closing lx3 where c3: "IsCharacter '']'' False False lx2 = Inr (closing, lx3)"
        using st t n Continue c False by (auto split: sum.splits)
      have cl: "closing = None"
        using st t n Continue c False c3 by (auto split: if_splits)
      have lx3: "lx3 = lx2"
        using IsCharacter_None [OF c3 [unfolded cl]] by simp
      obtain key4 lx4 where k: "Key_index_loop float_of key2 lx3 = Inr (key4, lx4)"
        using st t n Continue c False c3 cl by (auto split: sum.splits)
      have k4: "key4 \<noteq> []"
      proof (cases "key2 = []")
        case True
        with first Key_index_loop_bracket [OF k] lx3 show ?thesis by auto
      next
        case False
        with Key_index_loop_append [OF k] show ?thesis by auto
      qed
      obtain dot lx5 where d: "IsCharacter ''.'' False True lx4 = Inr (dot, lx5)"
        using st t n Continue c False c3 cl k by (auto split: sum.splits)
      have "res = Break (key4, lx5) \<or> res = Continue (key4, lx5)"
        using st t n Continue c False c3 cl k d by (auto split: if_splits)
      with k4 show ?thesis by auto
    qed
  qed
qed

lemma Key_step_Break_nonempty:
  assumes "Key_step float_of d key lx = Inr (Break (key', lx'))" and "key \<noteq> []"
  shows "key' \<noteq> []"
proof -
  note st = assms(1) [unfolded Key_step_def Let_def]
  obtain nm lx1 where t: "Token float_of RESERVED_OPERATOR_CHARS False False False lx = Inr (nm, lx1)"
    using st by (auto split: sum.splits)
  obtain r1 where n: "Key_name d key nm (GetPosition lx) lx1 = Inr r1"
    using st t by (auto split: sum.splits)
  show ?thesis
  proof (cases r1)
    case (Break b)
    then show ?thesis
      using n assms(2) by (auto simp: Key_name_def Let_def split: if_splits sum.splits)
  next
    case (Continue c)
    obtain key2 lx2 where c: "c = (key2, lx2)"
      by (cases c) auto
    have k2: "key2 \<noteq> []"
      using Key_name_Continue_nonempty [OF n [unfolded Continue c] assms(2)] .
    show ?thesis
    proof (cases "EndOfInput lx2 None")
      case True
      then have "key' = key2"
        using st t n Continue c by simp
      with k2 show ?thesis by simp
    next
      case False
      obtain closing lx3 where c3: "IsCharacter '']'' False False lx2 = Inr (closing, lx3)"
        using st t n Continue c False by (auto split: sum.splits)
      obtain key4 lx4 where k: "Key_index_loop float_of key2 lx3 = Inr (key4, lx4)"
        using st t n Continue c False c3 by (auto split: sum.splits if_splits)
      have "key' = key4"
        using st t n Continue c False c3 k by (auto split: sum.splits if_splits)
      with Key_index_loop_append [OF k] k2 show ?thesis by auto
    qed
  qed
qed

lemma Key_loop_nonempty:
  "Key_loop float_of d key lx = Inr (key', lx') \<Longrightarrow> key \<noteq> [] \<Longrightarrow> key' \<noteq> []"
proof (induction "length (expr lx) - position lx" arbitrary: key lx rule: less_induct)
  case less
  show ?case
  proof (cases "EndOfInput lx None")
    case True
    then show ?thesis
      using less.prems by (simp add: Key_loop.simps [of _ _ key lx])
  next
    case False
    obtain r where s: "Key_step float_of d key lx = Inr r"
      using less.prems(1) False by (auto simp: Key_loop.simps [of _ _ key lx] split: sum.splits)
    show ?thesis
    proof (cases r)
      case (Break b)
      then have "Key_step float_of d key lx = Inr (Break (key', lx'))"
        using less.prems(1) False s by (simp add: Key_loop.simps [of _ _ key lx])
      from Key_step_Break_nonempty [OF this less.prems(2)] show ?thesis .
    next
      case (Continue c)
      obtain key1 lx1 where c: "c = (key1, lx1)"
        by (cases c) auto
      have s1: "Key_step float_of d key lx = Inr (Continue (key1, lx1))"
        using s Continue c by simp
      have m: "length (expr lx1) - position lx1 < length (expr lx) - position lx"
        using Key_step_position [OF s1] by auto
      have r: "Key_loop float_of d key1 lx1 = Inr (key', lx')"
        using less.prems(1) False s1 by (simp add: Key_loop.simps [of _ _ key lx])
      from less.hyps [OF m r Key_step_Continue_nonempty [OF s1 less.prems(2)]] show ?thesis .
    qed
  qed
qed

section \<open>Rendering a key\<close>

text \<open>\<^verbatim>\<open>re.search(r'\W', part)\<close>: some character of the name is not a word character.\<close>

definition re_search_W :: "string \<Rightarrow> bool" where
  "re_search_W part = list_ex (\<lambda>c. \<not> is_word_char c) part"

text \<open>\<^verbatim>\<open>part.replace(c, r)\<close> for a single character \<open>c\<close>.\<close>

definition replace :: "char \<Rightarrow> string \<Rightarrow> string \<Rightarrow> string" where
  "replace c r part = concat (map (\<lambda>x. if x = c then r else [x]) part)"

text \<open>
  The quoted form of a name. The format string is a \<^verbatim>\<open>unicode\<close> literal, so the
  name is decoded as ASCII: a character outside ASCII raises UnicodeDecodeError.
\<close>

definition quote_name :: "string \<Rightarrow> error + string" where
  "quote_name part =
     (let part = replace ESCAPE [ESCAPE, ESCAPE] part;
          part = replace DQUOTE [ESCAPE, DQUOTE] part
      in if list_all is_ascii part then Inr ([DQUOTE] @ part @ [DQUOTE])
         else Inl UnicodeDecodeError)"

text \<open>\<^verbatim>\<open>if parts: parts[-1] += part; continue\<close>, and else \<^verbatim>\<open>parts.append(part)\<close>.\<close>

definition index_part :: "string \<Rightarrow> string list \<Rightarrow> string list" where
  "index_part part parts =
     (if parts \<noteq> [] then butlast parts @ [last parts @ part] else parts @ [part])"

fun GetKeyName_loop :: "pyval list \<Rightarrow> string list \<Rightarrow> error + string list" where
  "GetKeyName_loop [] parts = Inr parts"
| "GetKeyName_loop (PNone # key) parts = GetKeyName_loop key (index_part ''[]'' parts)"
| "GetKeyName_loop (PInt n # key) parts =
     GetKeyName_loop key (index_part (''['' @ str_of_int n @ '']'') parts)"
| "GetKeyName_loop (PBool b # key) parts =
     GetKeyName_loop key (index_part (''['' @ (if b then ''True'' else ''False'') @ '']'') parts)"
| "GetKeyName_loop (PStr part # key) parts =
     (if re_search_W part then
        (case quote_name part of
           Inl e \<Rightarrow> Inl e
         | Inr part \<Rightarrow> GetKeyName_loop key (parts @ [part]))
      else GetKeyName_loop key (parts @ [part]))"
| "GetKeyName_loop (part # key) parts = Inl TypeError"

fun join :: "string \<Rightarrow> string list \<Rightarrow> string" where
  "join sep [] = []"
| "join sep [p] = p"
| "join sep (p # ps) = p @ sep @ join sep ps"

definition GetKeyName :: "pyval list \<Rightarrow> error + string" where
  "GetKeyName key =
     (case GetKeyName_loop key [] of
        Inl e \<Rightarrow> Inl e
      | Inr parts \<Rightarrow> Inr (if parts \<noteq> [] then join ''.'' parts else ''.''))"

section \<open>Transforms\<close>

record TransformCall =
  name :: pyval
  func :: pyfunc
  active :: "int option"
  map_transform :: "bool option"
  args :: "pyval list"
  kwargs :: "(string \<times> pyval) list"
  restriction :: bool

record Transform =
  conditional :: "pyval option"
  transforms :: "TransformCall list"

subsection \<open>Evaluation\<close>

text \<open>
  \<^verbatim>\<open>resource_property.IsListLike\<close> is not among the sources; it is the parameter
  \<open>IsListLike\<close>. \<open>Evaluate_items\<close> is the inner loop that appends the transform of
  each item to a new list; \<open>Evaluate_step\<close> is the body of the loop over the calls.
\<close>

fun Evaluate_items :: "TransformCall \<Rightarrow> pyval list \<Rightarrow> pyval list \<Rightarrow> error + pyval list" where
  "Evaluate_items transform [] obj = Inr obj"
| "Evaluate_items transform (item # items) obj =
     (case call (func transform) (item # args transform) (kwargs transform) of
        Inl e \<Rightarrow> Inl e
      | Inr v \<Rightarrow> Evaluate_items transform items (obj @ [v]))"

definition Evaluate_step :: "(pyval \<Rightarrow> bool) \<Rightarrow> TransformCall \<Rightarrow> pyval \<Rightarrow> error + pyval" where
  "Evaluate_step IsListLike transform obj =
     (if map_transform transform = Some True \<and> IsListLike obj then
        (case py_iter obj of
           Inl e \<Rightarrow> Inl e
         | Inr items \<Rightarrow>
             (case Evaluate_items transform items [] of
                Inl e \<Rightarrow> Inl e
              | Inr obj \<Rightarrow> Inr (PList obj)))
      else if truth obj \<or> map_transform transform \<noteq> Some True then
        if restriction transform
        then call (func transform) (args transform) (kwargs transform)
        else call (func transform) (obj # args transform) (kwargs transform)
      else Inr obj)"

text \<open>
  \<^verbatim>\<open>Evaluate\<close> iterates over \<^verbatim>\<open>self._transforms\<close> by index, as a Python list iterator
  does. The object \<open>self\<close> is threaded through the loop and returned with the result.
  Here the transform functions are functions of their arguments; what evaluation and
  the functions do to the objects they share is the subject of the section on
  evaluation over a store.
\<close>

function Evaluate_loop ::
  "(pyval \<Rightarrow> bool) \<Rightarrow> Transform \<Rightarrow> nat \<Rightarrow> pyval \<Rightarrow> Transform \<times> (error + pyval)" where
  "Evaluate_loop IsListLike self i obj =
     (if i < length (transforms self) then
        (case Evaluate_step IsListLike (transforms self ! i) obj of
           Inl e \<Rightarrow> (self, Inl e)
         | Inr obj \<Rightarrow> Evaluate_loop IsListLike self (i + 1) obj)
      else (self, Inr obj))"
  by pat_completeness auto
termination
  by (relation "measure (\<lambda>(l, self, i, obj). length (transforms self) - i)") auto

declare Evaluate_loop.simps [simp del]

definition Evaluate :: "(pyval \<Rightarrow> bool) \<Rightarrow> Transform \<Rightarrow> pyval \<Rightarrow> Transform \<times> (error + pyval)" where
  "Evaluate IsListLike self obj = Evaluate_loop IsListLike self 0 obj"

subsection \<open>Parsing a chain of calls\<close>

text \<open>\<^verbatim>\<open>name, sep, val = arg.partition('=')\<close>, for each argument in turn.\<close>

fun ParseTransform_kwargs ::
  "pyval list \<Rightarrow> pyval list \<Rightarrow> (string \<times> pyval) list
   \<Rightarrow> error + (pyval list \<times> (string \<times> pyval) list)" where
  "ParseTransform_kwargs [] args' kwargs' = Inr (args', kwargs')"
| "ParseTransform_kwargs (PStr arg # rest) args' kwargs' =
     (if CHR ''='' \<in> set arg then
        ParseTransform_kwargs rest args'
          (AList.update (takeWhile (\<lambda>c. c \<noteq> CHR ''='') arg)
             (PStr (tl (dropWhile (\<lambda>c. c \<noteq> CHR ''='') arg))) kwargs')
      else ParseTransform_kwargs rest (args' @ [PStr arg]) kwargs')"
| "ParseTransform_kwargs (arg # rest) args' kwargs' = Inl AttributeError"

definition ParseTransform ::
  "(string \<Rightarrow> pyfloat option) \<Rightarrow> ProjectionSpec \<Rightarrow> pyval \<Rightarrow> int option \<Rightarrow> bool option \<Rightarrow> bool
   \<Rightarrow> Lexer \<Rightarrow> error + (TransformCall \<times> Lexer)" where
  "ParseTransform float_of defaults func_name active' map_transform' restriction' lx =
     (let here = GetPosition lx in
      case lookup (symbols defaults) func_name of
        None \<Rightarrow> Inl (ExpressionSyntaxError (UnknownTransformFunction func_name) here)
      | Some func' \<Rightarrow>
          let args' = (if func_doc_has_projection_arg func' then [PProjectionSpec] else []) in
          case Args float_of False lx of
            Inl e \<Rightarrow> Inl e
          | Inr (actuals, lx) \<Rightarrow>
              (case (if func_defaults func' then ParseTransform_kwargs actuals args' []
                     else Inr (args' @ actuals, [])) of
                 Inl e \<Rightarrow> Inl e
               | Inr (args', kwargs') \<Rightarrow>
                   Inr (\<lparr>name = func_name, func = func', active = active',
                         map_transform = map_transform', args = args', kwargs = kwargs',
                         restriction = restriction'\<rparr>, lx)))"

text \<open>
  The loop of \<^verbatim>\<open>Transform\<close>. A local variable that shares its name with an attribute
  of a call is written with a prime. The variables of the loop: \<^verbatim>\<open>func_name\<close>, \<^verbatim>\<open>active\<close>,
  \<^verbatim>\<open>restriction\<close>, \<^verbatim>\<open>here\<close>, \<^verbatim>\<open>calls\<close> and \<^verbatim>\<open>map_transform\<close>.
\<close>

type_synonym transform_vars = "pyval \<times> int option \<times> bool \<times> nat \<times> Transform \<times> bool"

text \<open>
  The branch of the loop on which function the call resolved to: \<^verbatim>\<open>always()\<close>,
  \<^verbatim>\<open>map()\<close> and \<^verbatim>\<open>if()\<close> set a variable and are left out of the list; any other call
  is added to it. The result holds the new \<^verbatim>\<open>func_name\<close>, \<^verbatim>\<open>active\<close>, \<^verbatim>\<open>calls\<close> and
  \<^verbatim>\<open>map_transform\<close>.
\<close>

definition Transform_combinators ::
  "TransformCall \<Rightarrow> pyval \<Rightarrow> int option \<Rightarrow> nat \<Rightarrow> Transform \<Rightarrow> bool
   \<Rightarrow> error + (pyval \<times> int option \<times> Transform \<times> bool)" where
  "Transform_combinators transform func_name active' here calls map_transform' =
     (if ident (func transform) = TransformAlways
        then Inr (PNone, None, calls, map_transform')
      else if ident (func transform) = TransformMap
        then Inr (PNone, active', calls, True)
      else if ident (func transform) = TransformIf then
        if length (args transform) \<noteq> 1
        then Inl (ExpressionSyntaxError ConditionalFilterExpressionExpected here)
        else Inr (func_name, active',
                  calls\<lparr>conditional := Some (args transform ! 0)\<rparr>, map_transform')
      else Inr (func_name, active',
                calls\<lparr>transforms := transforms calls @ [transform]\<rparr>, False))"

definition Transform_step ::
  "(string \<Rightarrow> pyfloat option) \<Rightarrow> ProjectionSpec \<Rightarrow> transform_vars \<Rightarrow> Lexer
   \<Rightarrow> error + (transform_vars \<times> Lexer) step" where
  "Transform_step float_of defaults vars lx =
     (case vars of (func_name, active', restriction', here, calls, map_transform') \<Rightarrow>
        case ParseTransform float_of defaults func_name active' (Some map_transform') restriction' lx of
          Inl e \<Rightarrow> Inl e
        | Inr (transform, lx) \<Rightarrow>
            let restriction' = False in
            case Transform_combinators transform func_name active' here calls map_transform' of
              Inl e \<Rightarrow> Inl e
            | Inr (func_name, active', calls, map_transform') \<Rightarrow>
                (case IsCharacter ''.'' False True lx of
                   Inl e \<Rightarrow> Inl e
                 | Inr (dot, lx) \<Rightarrow>
                     if dot = None
                     then Inr (Break ((func_name, active', restriction', here, calls, map_transform'), lx))
                     else
                       (case Key float_of defaults lx of
                          Inl e \<Rightarrow> Inl e
                        | Inr (call', lx) \<Rightarrow>
                            let here = GetPosition lx in
                            case IsCharacter ''('' False False lx of
                              Inl e \<Rightarrow> Inl e
                            | Inr (paren, lx) \<Rightarrow>
                                if paren = None
                                then Inl (ExpressionSyntaxError TransformFunctionExpected here)
                                else if length call' \<noteq> 1 then
                                  if list_all (\<lambda>v. case v of PStr n \<Rightarrow> True | _ \<Rightarrow> False) call'
                                  then Inl (ExpressionSyntaxError
                                         (UnknownTransformFunction
                                            (PStr (join ''.'' (map (\<lambda>v. case v of PStr n \<Rightarrow> n | _ \<Rightarrow> []) call'))))
                                         here)
                                  else Inl TypeError
                                else Inr (Continue ((last call', active', restriction', here, calls,
                                                     map_transform'), lx)))))"

lemma Transform_step_position:
  assumes "Transform_step float_of defaults vars lx = Inr (Continue (vars', lx'))"
  shows "expr lx' = expr lx \<and> position lx < position lx' \<and> position lx < length (expr lx)"
proof -
  obtain func_name active' restriction' here calls map_transform'
    where vars: "vars = (func_name, active', restriction', here, calls, map_transform')"
    by (cases vars) auto
  note st = assms [unfolded vars Transform_step_def Let_def prod.case]
  obtain transform lx1
    where p: "ParseTransform float_of defaults func_name active' (Some map_transform') restriction' lx
              = Inr (transform, lx1)"
    using st by (auto split: sum.splits)
  obtain actuals where a: "Args float_of False lx = Inr (actuals, lx1)"
    using p by (auto simp: ParseTransform_def Let_def split: option.splits sum.splits if_splits)
  obtain dot lx2 where d: "IsCharacter ''.'' False True lx1 = Inr (dot, lx2)"
    using st p by (auto split: sum.splits if_splits)
  have dot: "dot \<noteq> None"
    using st p d by (auto split: sum.splits if_splits)
  obtain call' lx3 where k: "Key float_of defaults lx2 = Inr (call', lx3)"
    using st p d dot by (auto split: sum.splits if_splits)
  obtain paren lx4 where c: "IsCharacter ''('' False False lx3 = Inr (paren, lx4)"
    using st p d dot k by (auto split: sum.splits if_splits)
  have "lx' = lx4"
    using st p d dot k c by (auto split: sum.splits if_splits)
  with Args_loop_position [OF a [unfolded Args_def]] IsCharacter_position [OF d]
    Key_loop_position [OF k [unfolded Key_def]] IsCharacter_position [OF c]
  show ?thesis by simp
qed

function Transform_loop ::
  "(string \<Rightarrow> pyfloat option) \<Rightarrow> ProjectionSpec \<Rightarrow> transform_vars \<Rightarrow> Lexer
   \<Rightarrow> error + (Transform \<times> Lexer)" where
  "Transform_loop float_of defaults vars lx =
     (case Transform_step float_of defaults vars lx of
        Inl e \<Rightarrow> Inl e
      | Inr (Break ((func_name, active', restriction', here, calls, map_transform'), lx)) \<Rightarrow>
          Inr (calls, lx)
      | Inr (Continue (vars, lx)) \<Rightarrow> Transform_loop float_of defaults vars lx)"
  by pat_completeness auto
termination
proof (relation "measure (\<lambda>(f, d, vars, lx). length (expr lx) - position lx)", goal_cases)
  case 1
  show ?case by simp
next
  case (2 float_of defaults vars lx r c vars' lx')
  then have "Transform_step float_of defaults vars lx = Inr (Continue (vars', lx'))"
    by simp
  from Transform_step_position [OF this] show ?case by auto
qed

declare Transform_loop.simps [simp del]

definition Transform ::
  "(string \<Rightarrow> pyfloat option) \<Rightarrow> ProjectionSpec \<Rightarrow> pyval \<Rightarrow> int option \<Rightarrow> bool \<Rightarrow> Lexer
   \<Rightarrow> error + (Transform \<times> Lexer)" where
  "Transform float_of defaults func_name active' restriction' lx =
     (let here = GetPosition lx;
          calls = \<lparr>conditional = None, transforms = []\<rparr>;
          map_transform' = False
      in Transform_loop float_of defaults
           (func_name, active', restriction', here, calls, map_transform') lx)"

subsection \<open>Which calls of a parsed chain are restrictions\<close>

lemma ParseTransform_restriction:
  "ParseTransform float_of defaults func_name active' map_transform' restriction' lx = Inr (t, lx')
   \<Longrightarrow> restriction t = restriction'"
  by (auto simp: ParseTransform_def Let_def split: option.splits sum.splits if_splits)

lemma Transform_combinators_calls:
  "Transform_combinators transform func_name active' here calls map_transform'
     = Inr (func_name1, active1, calls1, map_transform1) \<Longrightarrow>
   transforms calls1 = transforms calls \<or> transforms calls1 = transforms calls @ [transform]"
  by (auto simp: Transform_combinators_def split: if_splits)

lemma Transform_step_calls:
  assumes "Transform_step float_of defaults (func_name, active', restriction', here, calls, map_transform') lx
           = Inr res"
    and "res = Break ((func_name2, active2, restriction2, here2, calls2, map_transform2), lx2)
         \<or> res = Continue ((func_name2, active2, restriction2, here2, calls2, map_transform2), lx2)"
  shows "\<not> restriction2 \<and>
         (transforms calls2 = transforms calls \<or>
          (\<exists>t. transforms calls2 = transforms calls @ [t] \<and> restriction t = restriction'))"
proof -
  note st = assms(1) [unfolded Transform_step_def Let_def prod.case]
  obtain transform lx1
    where p: "ParseTransform float_of defaults func_name active' (Some map_transform') restriction' lx
              = Inr (transform, lx1)"
    using st by (auto split: sum.splits)
  have rt: "restriction transform = restriction'"
    using ParseTransform_restriction [OF p] .
  obtain func_name1 active1 calls1 map_transform1
    where c: "Transform_combinators transform func_name active' here calls map_transform'
              = Inr (func_name1, active1, calls1, map_transform1)"
    using st p by (auto split: sum.splits)
  note cc = Transform_combinators_calls [OF c]
  obtain dot lx3 where d: "IsCharacter ''.'' False True lx1 = Inr (dot, lx3)"
    using st p c by (auto split: sum.splits)
  show ?thesis
  proof (cases dot)
    case None
    then have "res = Break ((func_name1, active1, False, here, calls1, map_transform1), lx3)"
      using st p c d by simp
    with assms(2) cc rt show ?thesis by auto
  next
    case (Some x)
    obtain call' lx4 where k: "Key float_of defaults lx3 = Inr (call', lx4)"
      using st p c d Some by (auto split: sum.splits)
    obtain paren lx5 where q: "IsCharacter ''('' False False lx4 = Inr (paren, lx5)"
      using st p c d Some k by (auto split: sum.splits)
    have "res = Continue ((last call', active1, False, GetPosition lx4, calls1, map_transform1), lx5)"
      using st p c d Some k q by (auto split: if_splits)
    with assms(2) cc rt show ?thesis by auto
  qed
qed

lemma Transform_loop_restriction:
  "Transform_loop float_of defaults (func_name, active', restriction', here, calls, map_transform') lx
     = Inr (calls', lx') \<Longrightarrow>
   \<exists>new. transforms calls' = transforms calls @ new \<and>
         (\<forall>i < length new. restriction (new ! i) \<longrightarrow> restriction' \<and> i = 0)"
proof (induction "length (expr lx) - position lx"
    arbitrary: func_name active' restriction' here calls map_transform' lx rule: less_induct)
  case less
  let ?vars = "(func_name, active', restriction', here, calls, map_transform')"
  note prem = less.prems [unfolded Transform_loop.simps [of float_of defaults ?vars lx]]
  obtain res where st: "Transform_step float_of defaults ?vars lx = Inr res"
    using prem by (auto split: sum.splits)
  show ?case
  proof (cases res)
    case (Break b)
    obtain func_name2 active2 restriction2 here2 calls2 map_transform2 lx2
      where b: "b = ((func_name2, active2, restriction2, here2, calls2, map_transform2), lx2)"
      by (cases b) auto
    have "calls' = calls2"
      using prem st Break b by simp
    with Transform_step_calls [OF st, of func_name2 active2 restriction2 here2 calls2 map_transform2 lx2]
      Break b
    show ?thesis by auto
  next
    case (Continue c)
    obtain func_name2 active2 restriction2 here2 calls2 map_transform2 lx2
      where c: "c = ((func_name2, active2, restriction2, here2, calls2, map_transform2), lx2)"
      by (cases c) auto
    have r: "Transform_loop float_of defaults
               (func_name2, active2, restriction2, here2, calls2, map_transform2) lx2
             = Inr (calls', lx')"
      using prem st Continue c by simp
    have m: "length (expr lx2) - position lx2 < length (expr lx) - position lx"
      using Transform_step_position [of float_of defaults ?vars lx _ lx2] st Continue c by auto
    from less.hyps [OF m r] obtain new2
      where n2: "transforms calls' = transforms calls2 @ new2"
        "\<forall>i < length new2. restriction (new2 ! i) \<longrightarrow> restriction2 \<and> i = 0"
      by auto
    from Transform_step_calls [OF st, of func_name2 active2 restriction2 here2 calls2 map_transform2 lx2]
      Continue c
    have s: "\<not> restriction2"
      "transforms calls2 = transforms calls \<or>
       (\<exists>t. transforms calls2 = transforms calls @ [t] \<and> restriction t = restriction')"
      by auto
    from s(2) show ?thesis
    proof
      assume "transforms calls2 = transforms calls"
      with n2 s(1) show ?thesis by auto
    next
      assume "\<exists>t. transforms calls2 = transforms calls @ [t] \<and> restriction t = restriction'"
      then obtain t where t: "transforms calls2 = transforms calls @ [t]" "restriction t = restriction'"
        by auto
      have "transforms calls' = transforms calls @ (t # new2)"
        using n2(1) t(1) by simp
      moreover have "\<forall>i < length (t # new2). restriction ((t # new2) ! i) \<longrightarrow> restriction' \<and> i = 0"
        using n2(2) s(1) t(2) by (auto simp: nth_Cons split: nat.splits)
      ultimately show ?thesis by blast
    qed
  qed
qed

subsection \<open>A chain for the examples\<close>

text \<open>
  \<^verbatim>\<open>resource_transform\<close> is not among the sources. For the examples, \<open>upper\<close> is a
  transform that puts a string in upper case, \<open>mapped_upper\<close> is the call that
  \<^verbatim>\<open>map().upper()\<close> parses to, and \<open>is_list\<close> is \<^verbatim>\<open>isinstance(resource, list)\<close>, taken
  for \<^verbatim>\<open>IsListLike\<close>.
\<close>

definition is_list :: "pyval \<Rightarrow> bool" where
  "is_list v = (case v of PList xs \<Rightarrow> True | _ \<Rightarrow> False)"

definition upper_char :: "char \<Rightarrow> char" where
  "upper_char c =
     (if c \<in> set ''abcdefghijklmnopqrstuvwxyz'' then char_of (of_char c - (32 :: nat)) else c)"

definition upper :: pyfunc where
  "upper = \<lparr>ident = TransformNamed ''upper'', func_doc_has_projection_arg = False,
            func_defaults = False,
            call = (\<lambda>xs kw. case xs of [PStr s] \<Rightarrow> Inr (PStr (map upper_char s)) | _ \<Rightarrow> Inl TypeError)\<rparr>"

definition mapped_upper :: TransformCall where
  "mapped_upper = \<lparr>name = PStr ''upper'', func = upper, active = Some 0,
      map_transform = Some True, args = [], kwargs = [], restriction = False\<rparr>"

subsection \<open>One more call at the end of a chain\<close>

lemma Evaluate_items_all:
  "(\<And>item. item \<in> set items \<Longrightarrow> call (func t) (item # args t) (kwargs t) = Inr (g item)) \<Longrightarrow>
     Evaluate_items t items acc = Inr (acc @ map g items)"
  by (induction items arbitrary: acc) auto

lemma Evaluate_loop_snoc:
  "i \<le> length ts \<Longrightarrow>
   snd (Evaluate_loop L \<lparr>conditional = c, transforms = ts @ [t]\<rparr> i obj) =
     (case snd (Evaluate_loop L \<lparr>conditional = c, transforms = ts\<rparr> i obj) of
        Inl e \<Rightarrow> Inl e
      | Inr v \<Rightarrow> Evaluate_step L t v)"
proof (induction "length ts - i" arbitrary: i obj)
  case 0
  then have i: "i = length ts"
    by simp
  show ?case
    by (simp add: i Evaluate_loop.simps [of L _ "length ts"] Evaluate_loop.simps [of L _ "Suc (length ts)"]
        split: sum.splits)
next
  case (Suc n)
  then have i: "i < length ts"
    by simp
  have n: "n = length ts - (i + 1)" and le: "i + 1 \<le> length ts"
    using Suc.hyps(2) by auto
  show ?case
  proof (cases "Evaluate_step L (ts ! i) obj")
    case (Inl e)
    with i show ?thesis
      by (simp add: Evaluate_loop.simps [of L _ i obj] nth_append)
  next
    case (Inr v)
    with i Suc.hyps(1) [OF n le, of v] show ?thesis
      by (simp add: Evaluate_loop.simps [of L _ i obj] nth_append)
  qed
qed

section \<open>Parsing what \<^verbatim>\<open>GetKeyName\<close> renders\<close>

subsection \<open>The scanning loop on plain characters and inside double quotes\<close>

text \<open>
  A character is \<open>plain\<close> for a set of terminators when the loop of \<^verbatim>\<open>Token\<close> appends it
  outside quotes; the scan \<open>stops\<close> before \<open>rest\<close> at the end of the input or at a
  terminator. \<open>escape_char\<close> is what the two \<^verbatim>\<open>replace\<close> calls of \<^verbatim>\<open>GetKeyName\<close> make
  of one character.
\<close>

definition plain :: "string \<Rightarrow> char \<Rightarrow> bool" where
  "plain T c = (c \<noteq> ESCAPE \<and> c \<notin> set QUOTES \<and> c \<notin> set T \<and> \<not> isspace c)"

definition stops :: "string \<Rightarrow> string \<Rightarrow> bool" where
  "stops T rest =
     (case rest of [] \<Rightarrow> True | r # rs \<Rightarrow> r \<in> set T \<and> r \<noteq> ESCAPE \<and> r \<notin> set QUOTES)"

lemma Token_loop_Continue:
  "\<not> EndOfInput lx (Some (scan_index s)) \<Longrightarrow> Token_step lx T bp s = Continue s' \<Longrightarrow>
     Token_loop lx T bp s = Token_loop lx T bp s'"
  by (simp add: Token_loop.simps [of lx T bp s])

lemma Token_loop_Break:
  "\<not> EndOfInput lx (Some (scan_index s)) \<Longrightarrow> Token_step lx T bp s = Break s' \<Longrightarrow>
     Token_loop lx T bp s = s'"
  by (simp add: Token_loop.simps [of lx T bp s])

lemma Token_loop_end:
  "EndOfInput lx (Some (scan_index s)) \<Longrightarrow> Token_loop lx T bp s = s"
  by (simp add: Token_loop.simps [of lx T bp s])

lemma Token_loop_plain:
  assumes "\<forall>c \<in> set s. plain T c" and "expr lx = pre @ s @ rest"
  shows "Token_loop lx T False (None, qd, tk, 0, length pre) =
         Token_loop lx T False
           (None, qd, (if s = [] then tk else Some (started tk @ s)), 0, length pre + length s)"
  using assms
proof (induction s arbitrary: pre tk)
  case Nil
  then show ?case by simp
next
  case (Cons c s)
  have c: "expr lx ! length pre = c" and i: "\<not> EndOfInput lx (Some (length pre))"
    using Cons.prems(2) by (simp_all add: EndOfInput_def)
  have p: "plain T c"
    using Cons.prems(1) by simp
  have st: "Token_step lx T False (None, qd, tk, 0, length pre)
            = Continue (None, qd, Some (started tk @ [c]), 0, length pre + 1)"
    using p c by (simp add: Token_step_def plain_def Let_def)
  have e: "expr lx = (pre @ [c]) @ s @ rest"
    using Cons.prems(2) by simp
  have "Token_loop lx T False (None, qd, tk, 0, length pre)
        = Token_loop lx T False (None, qd, Some (started tk @ [c]), 0, length (pre @ [c]))"
    using Token_loop_Continue [OF _ st] i by (simp add: scan_index_def)
  also have "\<dots> = Token_loop lx T False
      (None, qd, (if s = [] then Some (started tk @ [c]) else Some (started (Some (started tk @ [c])) @ s)),
       0, length (pre @ [c]) + length s)"
    using Cons.IH [OF _ e] Cons.prems(1) by simp
  finally show ?case
    by (simp add: started_def)
qed

lemma Token_loop_stop:
  assumes "stops T rest" and "expr lx = pre @ rest"
  shows "Token_loop lx T False (None, qd, tk, 0, length pre) = (None, qd, tk, 0, length pre)"
proof (cases rest)
  case Nil
  then show ?thesis
    using assms(2) by (simp add: Token_loop_end scan_index_def EndOfInput_def)
next
  case (Cons r rs)
  have c: "expr lx ! length pre = r" and i: "\<not> EndOfInput lx (Some (length pre))"
    using assms(2) Cons by (simp_all add: EndOfInput_def)
  have "Token_step lx T False (None, qd, tk, 0, length pre) = Break (None, qd, tk, 0, length pre)"
    using assms(1) Cons c by (simp add: Token_step_def stops_def Let_def)
  from Token_loop_Break [OF _ this] i show ?thesis
    by (simp add: scan_index_def)
qed

lemma Token_loop_open_quote:
  assumes "expr lx = pre @ DQUOTE # rest"
  shows "Token_loop lx T bp (None, qd, tk, pc, length pre) =
         Token_loop lx T bp (Some DQUOTE, True, Some (started tk), pc, length pre + 1)"
proof -
  have c: "expr lx ! length pre = DQUOTE" and i: "\<not> EndOfInput lx (Some (length pre))"
    using assms by (simp_all add: EndOfInput_def)
  have "Token_step lx T bp (None, qd, tk, pc, length pre)
        = Continue (Some DQUOTE, True, Some (started tk), pc, length pre + 1)"
    using c by (simp add: Token_step_def Let_def DQUOTE_def ESCAPE_def QUOTES_def)
  from Token_loop_Continue [OF _ this] i show ?thesis
    by (simp add: scan_index_def)
qed

lemma Token_loop_close_quote:
  assumes "expr lx = pre @ DQUOTE # rest"
  shows "Token_loop lx T bp (Some DQUOTE, qd, tk, pc, length pre) =
         Token_loop lx T bp (None, qd, tk, pc, length pre + 1)"
proof -
  have c: "expr lx ! length pre = DQUOTE" and i: "\<not> EndOfInput lx (Some (length pre))"
    using assms by (simp_all add: EndOfInput_def)
  have "Token_step lx T bp (Some DQUOTE, qd, tk, pc, length pre)
        = Continue (None, qd, tk, pc, length pre + 1)"
    using c by (simp add: Token_step_def Let_def DQUOTE_def ESCAPE_def)
  from Token_loop_Continue [OF _ this] i show ?thesis
    by (simp add: scan_index_def)
qed

definition escape_char :: "char \<Rightarrow> string" where
  "escape_char x = (if x = ESCAPE then [ESCAPE, ESCAPE] else if x = DQUOTE then [ESCAPE, DQUOTE] else [x])"

lemma Token_loop_in_quote:
  assumes "expr lx = pre @ concat (map escape_char s) @ DQUOTE # rest"
  shows "Token_loop lx T bp (Some DQUOTE, qd, Some tok, pc, length pre) =
         Token_loop lx T bp
           (Some DQUOTE, qd, Some (tok @ s), pc, length pre + length (concat (map escape_char s)))"
  using assms
proof (induction s arbitrary: pre tok)
  case Nil
  then show ?case by simp
next
  case (Cons x s)
  let ?e = "escape_char x"
  have e: "expr lx = (pre @ ?e) @ concat (map escape_char s) @ DQUOTE # rest"
    using Cons.prems by simp
  have i: "\<not> EndOfInput lx (Some (length pre))"
    using Cons.prems by (simp add: EndOfInput_def escape_char_def)
  have st: "Token_step lx T bp (Some DQUOTE, qd, Some tok, pc, length pre)
            = Continue (Some DQUOTE, qd, Some (tok @ [x]), pc, length pre + length ?e)"
  proof (cases "x = ESCAPE \<or> x = DQUOTE")
    case True
    have c0: "expr lx ! length pre = ESCAPE" and c1: "expr lx ! (length pre + 1) = x"
      and i1: "\<not> EndOfInput lx (Some (length pre + 1))"
      using Cons.prems True by (auto simp: escape_char_def EndOfInput_def nth_append)
    show ?thesis
      using True c0 c1 i1
      by (auto simp: Token_step_def Let_def started_def escape_char_def DQUOTE_def ESCAPE_def)
  next
    case False
    have c0: "expr lx ! length pre = x"
      using Cons.prems False by (simp add: escape_char_def)
    show ?thesis
      using False c0 by (simp add: Token_step_def Let_def started_def escape_char_def)
  qed
  have "Token_loop lx T bp (Some DQUOTE, qd, Some tok, pc, length pre)
        = Token_loop lx T bp (Some DQUOTE, qd, Some (tok @ [x]), pc, length (pre @ ?e))"
    using Token_loop_Continue [OF _ st] i by (simp add: scan_index_def)
  also have "\<dots> = Token_loop lx T bp
      (Some DQUOTE, qd, Some ((tok @ [x]) @ s), pc, length (pre @ ?e) + length (concat (map escape_char s)))"
    using Cons.IH [OF e] .
  finally show ?case
    by (simp add: add.assoc)
qed

subsection \<open>\<^verbatim>\<open>int()\<close> reads back the decimal form of an integer\<close>

lemma digit_char_literal:
  "digit_char 0 = CHR ''0''" "digit_char 1 = CHR ''1''" "digit_char 2 = CHR ''2''"
  "digit_char 3 = CHR ''3''" "digit_char 4 = CHR ''4''" "digit_char 5 = CHR ''5''"
  "digit_char 6 = CHR ''6''" "digit_char 7 = CHR ''7''" "digit_char 8 = CHR ''8''"
  "digit_char 9 = CHR ''9''"
  by code_simp+

lemma digit_char_cases:
  assumes "d < 10"
  shows "digit_char d \<in> set ''0123456789''"
proof -
  from assms consider "d = 0" | "d = 1" | "d = 2" | "d = 3" | "d = 4" | "d = 5" | "d = 6" | "d = 7"
    | "d = 8" | "d = 9"
    by (auto simp: less_Suc_eq numeral_eq_Suc)
  then show ?thesis
    by cases (simp_all only: digit_char_literal, simp_all)
qed

lemma digit_val_digit_char: "d < 10 \<Longrightarrow> digit_val (digit_char d) = int d"
  by (simp add: digit_val_def digit_char_def)

lemma isdigit_plain: "isdigit c \<Longrightarrow> plain '']'' c \<and> c \<noteq> CHR ''-'' \<and> c \<noteq> CHR ''+''"
  by (auto simp: isdigit_def plain_def ESCAPE_def QUOTES_def SQUOTE_def DQUOTE_def isspace_def)

lemma minus_plain: "plain '']'' CHR ''-''"
  by (simp add: plain_def ESCAPE_def QUOTES_def SQUOTE_def DQUOTE_def isspace_def)

lemma is_word_char_plain: "is_word_char c \<Longrightarrow> plain RESERVED_OPERATOR_CHARS c"
  by (auto simp: is_word_char_def plain_def ESCAPE_def QUOTES_def SQUOTE_def DQUOTE_def isspace_def
      RESERVED_OPERATOR_CHARS_def)

lemma str_of_nat_digits: "list_all isdigit (str_of_nat n) \<and> str_of_nat n \<noteq> []"
proof (induction n rule: str_of_nat.induct)
  case (1 n)
  show ?case
  proof (cases "n < 10")
    case True
    then show ?thesis
      using digit_char_cases [of n] by (simp add: str_of_nat.simps [of n] isdigit_def)
  next
    case False
    then show ?thesis
      using "1.IH" digit_char_cases [of "n mod 10"]
      by (simp add: str_of_nat.simps [of n] isdigit_def)
  qed
qed

lemma str_of_nat_value: "foldl (\<lambda>a d. 10 * a + digit_val d) 0 (str_of_nat n) = int n"
proof (induction n rule: str_of_nat.induct)
  case (1 n)
  show ?case
  proof (cases "n < 10")
    case True
    then show ?thesis
      by (simp add: str_of_nat.simps [of n] digit_val_digit_char)
  next
    case False
    show ?thesis
    proof -
      have a: "10 * int (n div 10) + int (n mod 10) = int n"
        by presburger
      show ?thesis
        using False "1.IH" a by (simp add: str_of_nat.simps [of n] digit_val_digit_char)
    qed
  qed
qed

lemma py_int_digits:
  assumes "list_all isdigit ds" and "ds \<noteq> []"
  shows "py_int ds = Some (foldl (\<lambda>a d. 10 * a + digit_val d) 0 ds)"
    and "py_int (CHR ''-'' # ds) = Some (- foldl (\<lambda>a d. 10 * a + digit_val d) 0 ds)"
proof -
  obtain d ds' where ds: "ds = d # ds'"
    using assms(2) by (cases ds) auto
  have d: "isdigit d" "\<not> isspace d" "d \<noteq> CHR ''-''" "d \<noteq> CHR ''+''"
    using assms(1) isdigit_plain [of d] by (auto simp: ds plain_def)
  have tw: "takeWhile isdigit ds = ds" "dropWhile isdigit ds = []"
    using assms(1) by (auto simp: list_all_iff)
  have dw: "dropWhile isspace ds = ds"
    using d by (simp add: ds)
  have m: "\<not> isspace CHR ''-''"
    by (simp add: isspace_def)
  show "py_int ds = Some (foldl (\<lambda>a d. 10 * a + digit_val d) 0 ds)"
    using assms(2) d by (simp add: py_int_def Let_def dw tw) (simp add: ds)
  show "py_int (CHR ''-'' # ds) = Some (- foldl (\<lambda>a d. 10 * a + digit_val d) 0 ds)"
    using assms(2) m by (simp add: py_int_def Let_def dw tw)
qed

lemma py_int_str_of_int: "py_int (str_of_int i) = Some i"
  using py_int_digits [of "str_of_nat (nat i)"] py_int_digits [of "str_of_nat (nat (- i))"]
    str_of_nat_digits
  by (simp add: str_of_int_def str_of_nat_value)

lemma str_of_int_plain: "c \<in> set (str_of_int i) \<Longrightarrow> plain '']'' c"
  using str_of_nat_digits [of "nat i"] str_of_nat_digits [of "nat (- i)"] isdigit_plain minus_plain
  by (auto simp: str_of_int_def list_all_iff split: if_splits)

lemma str_of_int_nonempty: "str_of_int i \<noteq> []"
  using str_of_nat_digits [of "nat i"] by (simp add: str_of_int_def)

subsection \<open>Three tokens: nothing, a bare token, a token in double quotes\<close>

lemma SkipSpace_loop_stay:
  "EndOfInput lx None \<or> \<not> isspace (expr lx ! position lx) \<Longrightarrow> SkipSpace_loop lx = (\<not> EndOfInput lx None, lx)"
  by (auto simp: SkipSpace_loop.simps [of lx])

lemma Token_nothing:
  assumes "expr lx = pre @ rest" and "position lx = length pre" and "stops T rest"
    and "sp \<longrightarrow> rest = [] \<or> \<not> isspace (hd rest)"
  shows "Token float_of T False sp cv lx = Inr (PNone, lx)"
proof -
  have l: "Token_loop lx T False (None, False, None, 0, GetPosition lx)
           = (None, False, None, 0, length pre)"
    using Token_loop_stop [OF assms(3,1)] assms(2) by (simp add: GetPosition_def)
  have s: "SetPosition (length pre) lx = lx"
    using assms(2) by (simp add: SetPosition_def)
  have k: "sp \<Longrightarrow> snd (SkipSpace_loop lx) = lx"
    using assms(1,2,4) SkipSpace_loop_stay [of lx]
    by (cases rest) (auto simp: EndOfInput_def)
  show ?thesis
    using k by (simp add: Token_eq l s Token_convert_def Let_def)
qed

lemma Token_bare:
  assumes "expr lx = pre @ s @ rest" and "position lx = length pre" and "stops T rest"
    and "\<forall>c \<in> set s. plain T c" and "s \<noteq> []"
    and "sp \<longrightarrow> rest = [] \<or> \<not> isspace (hd rest)"
  shows "Token float_of T False sp cv lx =
           Inr (Token_convert float_of cv False (Some s), lx\<lparr>position := length pre + length s\<rparr>)"
proof -
  have e: "expr lx = (pre @ s) @ rest"
    using assms(1) by simp
  have l: "Token_loop lx T False (None, False, None, 0, GetPosition lx)
           = (None, False, Some s, 0, length pre + length s)"
    using Token_loop_plain [OF assms(4,1), of False None] Token_loop_stop [OF assms(3) e, of False "Some s"]
      assms(2,5)
    by (simp add: GetPosition_def started_def)
  let ?lx = "SetPosition (length pre + length s) lx"
  have k: "sp \<Longrightarrow> snd (SkipSpace_loop ?lx) = ?lx"
    using assms(1,6) SkipSpace_loop_stay [of ?lx]
    by (cases rest) (auto simp: EndOfInput_def SetPosition_def nth_append)
  show ?thesis
    using k by (simp add: Token_eq l Let_def) (simp add: SetPosition_def)
qed

lemma Token_quoted:
  assumes "expr lx = pre @ DQUOTE # concat (map escape_char s) @ DQUOTE # rest"
    and "position lx = length pre" and "stops T rest"
  shows "Token float_of T False False False lx =
           Inr (PStr s, lx\<lparr>position := length pre + length (concat (map escape_char s)) + 2\<rparr>)"
proof -
  let ?q = "concat (map escape_char s)"
  have e1: "expr lx = (pre @ [DQUOTE]) @ ?q @ DQUOTE # rest"
    and e2: "expr lx = (pre @ DQUOTE # ?q) @ DQUOTE # rest"
    and e3: "expr lx = (pre @ DQUOTE # ?q @ [DQUOTE]) @ rest"
    using assms(1) by simp_all
  have "Token_loop lx T False (None, False, None, 0, length pre)
        = Token_loop lx T False (Some DQUOTE, True, Some [], 0, length (pre @ [DQUOTE]))"
    using Token_loop_open_quote [OF assms(1), of T False False None 0] by (simp add: started_def)
  also have "\<dots> = Token_loop lx T False (Some DQUOTE, True, Some s, 0, length (pre @ DQUOTE # ?q))"
    using Token_loop_in_quote [OF e1, of T False True "[]" 0] by simp
  also have "\<dots> = Token_loop lx T False (None, True, Some s, 0, length (pre @ DQUOTE # ?q @ [DQUOTE]))"
    using Token_loop_close_quote [OF e2, of T False True "Some s" 0] by simp
  also have "\<dots> = (None, True, Some s, 0, length (pre @ DQUOTE # ?q @ [DQUOTE]))"
    using Token_loop_stop [OF assms(3) e3] .
  finally show ?thesis
    using assms(2) by (simp add: Token_eq GetPosition_def Let_def Token_convert_def SetPosition_def)
qed

subsection \<open>What \<^verbatim>\<open>GetKeyName\<close> renders\<close>

text \<open>
  A segment is canonical when \<^verbatim>\<open>Key\<close> can return it and \<^verbatim>\<open>GetKeyName\<close> renders it: the
  slice \<^verbatim>\<open>None\<close>, an integer index, or a non-empty name of ASCII characters.
  \<open>render_name\<close> is the text of a name, quoted when it has a character that is not a word
  character, and \<open>key_tail\<close> is the text of the segments after the first: a name after a
  dot, an index or a slice in brackets.
\<close>

fun canonical_segment :: "pyval \<Rightarrow> bool" where
  "canonical_segment PNone = True"
| "canonical_segment (PInt n) = True"
| "canonical_segment (PStr s) = (s \<noteq> [] \<and> list_all is_ascii s)"
| "canonical_segment v = False"

definition render_name :: "string \<Rightarrow> string" where
  "render_name s =
     (if re_search_W s then DQUOTE # concat (map escape_char s) @ [DQUOTE] else s)"

fun key_tail :: "pyval list \<Rightarrow> string" where
  "key_tail [] = []"
| "key_tail (PStr s # key) = ''.'' @ render_name s @ key_tail key"
| "key_tail (PInt n # key) = ''['' @ str_of_int n @ '']'' @ key_tail key"
| "key_tail (v # key) = ''[]'' @ key_tail key"

lemma replace_escape:
  "replace DQUOTE [ESCAPE, DQUOTE] (replace ESCAPE [ESCAPE, ESCAPE] s) = concat (map escape_char s)"
  by (induction s) (auto simp: replace_def escape_char_def ESCAPE_def DQUOTE_def)

lemma quote_name_ascii:
  assumes "list_all is_ascii s"
  shows "quote_name s = Inr (DQUOTE # concat (map escape_char s) @ [DQUOTE])"
proof -
  have "list_all is_ascii (concat (map escape_char s))"
    using assms
    by (induction s) (auto simp: escape_char_def is_ascii_def ESCAPE_def DQUOTE_def)
  then show ?thesis
    by (simp add: quote_name_def Let_def replace_escape)
qed

lemma join_snoc: "parts \<noteq> [] \<Longrightarrow> join sep (parts @ [p]) = join sep parts @ sep @ p"
  by (induction sep parts rule: join.induct) auto

lemma join_last: "parts \<noteq> [] \<Longrightarrow> join sep (butlast parts @ [last parts @ p]) = join sep parts @ p"
  by (induction sep parts rule: join.induct) auto

lemma GetKeyName_loop_canonical:
  assumes "list_all canonical_segment key" and "parts \<noteq> []"
  shows "\<exists>ps. GetKeyName_loop key parts = Inr ps \<and> ps \<noteq> [] \<and>
              join ''.'' ps = join ''.'' parts @ key_tail key"
  using assms
proof (induction key arbitrary: parts)
  case Nil
  then show ?case by simp
next
  case (Cons seg key)
  show ?case
  proof (cases seg)
    case PNone
    have "index_part ''[]'' parts \<noteq> []"
      by (simp add: index_part_def)
    from Cons.IH [OF _ this] Cons.prems show ?thesis
      by (auto simp: PNone index_part_def join_last)
  next
    case (PInt n)
    have "index_part (''['' @ str_of_int n @ '']'') parts \<noteq> []"
      by (simp add: index_part_def)
    from Cons.IH [OF _ this] Cons.prems show ?thesis
      by (auto simp: PInt index_part_def join_last)
  next
    case (PStr s)
    have a: "list_all is_ascii s"
      using Cons.prems(1) PStr by simp
    have "parts @ [render_name s] \<noteq> []"
      by simp
    from Cons.IH [OF _ this] Cons.prems show ?thesis
      by (auto simp: PStr render_name_def quote_name_ascii [OF a] join_snoc)
  qed (use Cons.prems in auto)
qed

lemma GetKeyName_canonical:
  assumes "list_all canonical_segment key"
  shows "GetKeyName key =
           Inr (case key of
                  [] \<Rightarrow> ''.''
                | PStr s # ks \<Rightarrow> render_name s @ key_tail ks
                | seg # ks \<Rightarrow> key_tail key)"
proof (cases key)
  case Nil
  then show ?thesis by (simp add: GetKeyName_def)
next
  case (Cons seg ks)
  have ks: "list_all canonical_segment ks"
    using assms Cons by simp
  show ?thesis
  proof (cases seg)
    case PNone
    from GetKeyName_loop_canonical [OF ks, of "[''[]'']"] show ?thesis
      by (auto simp: GetKeyName_def Cons PNone index_part_def)
  next
    case (PInt n)
    from GetKeyName_loop_canonical [OF ks, of "[''['' @ str_of_int n @ '']'']"] show ?thesis
      by (auto simp: GetKeyName_def Cons PInt index_part_def)
  next
    case (PStr s)
    have a: "list_all is_ascii s"
      using assms Cons PStr by simp
    from GetKeyName_loop_canonical [OF ks, of "[render_name s]"] show ?thesis
      by (auto simp: GetKeyName_def Cons PStr render_name_def quote_name_ascii [OF a])
  qed (use assms Cons in auto)
qed

subsection \<open>\<^verbatim>\<open>Key\<close> on the text of a canonical key\<close>

definition is_index :: "pyval \<Rightarrow> bool" where
  "is_index seg = (case seg of PStr s \<Rightarrow> False | _ \<Rightarrow> True)"

lemma key_tail_append: "key_tail (xs @ ys) = key_tail xs @ key_tail ys"
  by (induction xs rule: key_tail.induct) auto

lemma key_tail_head:
  "list_all canonical_segment ks \<Longrightarrow>
     key_tail ks = [] \<or> hd (key_tail ks) = CHR ''.'' \<or> hd (key_tail ks) = CHR ''[''"
  by (cases ks rule: key_tail.cases) auto

lemma stops_reserved:
  "rest = [] \<or> hd rest = CHR ''.'' \<or> hd rest = CHR ''['' \<Longrightarrow> stops RESERVED_OPERATOR_CHARS rest"
  by (cases rest)
    (auto simp: stops_def RESERVED_OPERATOR_CHARS_def ESCAPE_def QUOTES_def SQUOTE_def DQUOTE_def)

lemma render_name_nonempty: "s \<noteq> [] \<Longrightarrow> render_name s \<noteq> []"
  by (simp add: render_name_def)

lemma Token_name:
  assumes "s \<noteq> []" and "expr lx = pre @ render_name s @ rest" and "position lx = length pre"
    and "stops RESERVED_OPERATOR_CHARS rest"
  shows "Token float_of RESERVED_OPERATOR_CHARS False False False lx =
           Inr (PStr s, lx\<lparr>position := length pre + length (render_name s)\<rparr>)"
proof (cases "re_search_W s")
  case True
  then have "expr lx = pre @ DQUOTE # concat (map escape_char s) @ DQUOTE # rest"
    using assms(2) by (simp add: render_name_def)
  from Token_quoted [OF this assms(3,4), of float_of] True show ?thesis
    by (simp add: render_name_def)
next
  case False
  then have p: "\<forall>c \<in> set s. plain RESERVED_OPERATOR_CHARS c"
    using is_word_char_plain by (auto simp: re_search_W_def list_ex_iff)
  have e: "expr lx = pre @ s @ rest"
    using assms(2) False by (simp add: render_name_def)
  from Token_bare [OF e assms(3,4) p assms(1), of False float_of False] False show ?thesis
    by (simp add: render_name_def Token_convert_def)
qed

lemma IsCharacter_hit:
  assumes "expr lx = pre @ c # rest" and "position lx = length pre" and "c \<in> set cs"
  shows "IsCharacter cs False eoi_ok lx = Inr (Some c, lx\<lparr>position := length pre + 1\<rparr>)"
    and "IsCharacter cs True eoi_ok lx = Inr (Some c, lx)"
  using assms by (simp_all add: IsCharacter_def EndOfInput_def)

lemma IsCharacter_miss:
  assumes "expr lx = pre @ rest" and "position lx = length pre"
    and "rest = [] \<or> hd rest \<notin> set cs" and "peek \<or> eoi_ok \<or> rest \<noteq> []"
  shows "IsCharacter cs peek eoi_ok lx = Inr (None, lx)"
  using assms by (cases rest) (auto simp: IsCharacter_def EndOfInput_def)

lemma Key_index_loop_indices:
  assumes "list_all canonical_segment idxs" and "list_all is_index idxs"
    and "expr lx = pre @ key_tail idxs @ rest" and "position lx = length pre"
    and "rest = [] \<or> hd rest \<noteq> CHR ''[''"
  shows "Key_index_loop float_of acc lx =
           Inr (acc @ idxs, lx\<lparr>position := length pre + length (key_tail idxs)\<rparr>)"
  using assms
proof (induction idxs arbitrary: acc pre lx)
  case Nil
  have "IsCharacter ''['' False True lx = Inr (None, lx)"
    using IsCharacter_miss [of lx pre rest "''[''" False True] Nil.prems by auto
  then show ?case
    using Nil.prems(4) by (simp add: Key_index_loop.simps [of _ _ lx])
next
  case (Cons idx idxs)
  let ?lx1 = "lx\<lparr>position := length pre + 1\<rparr>"
  show ?case
  proof (cases idx)
    case PNone
    have e: "expr lx = pre @ CHR ''['' # CHR '']'' # key_tail idxs @ rest"
      using Cons.prems(3) PNone by simp
    have c1: "IsCharacter ''['' False True lx = Inr (Some CHR ''['', ?lx1)"
      using IsCharacter_hit(1) [OF e Cons.prems(4)] by simp
    have e1: "expr ?lx1 = (pre @ ''['') @ (CHR '']'' # key_tail idxs @ rest)" "position ?lx1 = length (pre @ ''['')"
      using e by simp_all
    have t: "Token float_of '']'' False True True ?lx1 = Inr (PNone, ?lx1)"
      using Token_nothing [OF e1, of "'']''" True float_of True]
      by (simp add: stops_def ESCAPE_def QUOTES_def SQUOTE_def DQUOTE_def isspace_def)
    let ?lx2 = "lx\<lparr>position := length pre + 2\<rparr>"
    have c2: "IsCharacter '']'' False False ?lx1 = Inr (Some CHR '']'', ?lx2)"
      using IsCharacter_hit(1) [of ?lx1 "pre @ ''[''" "CHR '']''" "key_tail idxs @ rest" "'']''" False] e
      by simp
    have e2: "expr ?lx2 = (pre @ ''[]'') @ key_tail idxs @ rest" "position ?lx2 = length (pre @ ''[]'')"
      using e by simp_all
    have "Key_index_loop float_of (acc @ [idx]) ?lx2 =
            Inr ((acc @ [idx]) @ idxs, ?lx2\<lparr>position := length (pre @ ''[]'') + length (key_tail idxs)\<rparr>)"
      using Cons.IH [OF _ _ e2 Cons.prems(5)] Cons.prems(1,2) by simp
    then show ?thesis
      using c1 t c2 by (simp add: Key_index_loop.simps [of _ _ lx] PNone)
  next
    case (PInt n)
    let ?s = "str_of_int n"
    have e: "expr lx = pre @ CHR ''['' # ?s @ CHR '']'' # key_tail idxs @ rest"
      using Cons.prems(3) PInt by simp
    have c1: "IsCharacter ''['' False True lx = Inr (Some CHR ''['', ?lx1)"
      using IsCharacter_hit(1) [OF e Cons.prems(4)] by simp
    have e1: "expr ?lx1 = (pre @ ''['') @ ?s @ (CHR '']'' # key_tail idxs @ rest)" "position ?lx1 = length (pre @ ''['')"
      using e by simp_all
    let ?lx2 = "lx\<lparr>position := length pre + 1 + length ?s\<rparr>"
    have t: "Token float_of '']'' False True True ?lx1 = Inr (PInt n, ?lx2)"
      using Token_bare [OF e1, of "'']''" True float_of True] str_of_int_plain [of _ n]
        str_of_int_nonempty [of n]
      by (simp add: stops_def ESCAPE_def QUOTES_def SQUOTE_def DQUOTE_def isspace_def
          Token_convert_def py_int_str_of_int)
    let ?lx3 = "lx\<lparr>position := length pre + 1 + length ?s + 1\<rparr>"
    have c2: "IsCharacter '']'' False False ?lx2 = Inr (Some CHR '']'', ?lx3)"
      using IsCharacter_hit(1) [of ?lx2 "pre @ ''['' @ ?s" "CHR '']''" "key_tail idxs @ rest" "'']''" False] e
      by simp
    have e3: "expr ?lx3 = (pre @ ''['' @ ?s @ '']'') @ key_tail idxs @ rest"
      "position ?lx3 = length (pre @ ''['' @ ?s @ '']'')"
      using e by simp_all
    have "Key_index_loop float_of (acc @ [idx]) ?lx3 =
            Inr ((acc @ [idx]) @ idxs,
                 ?lx3\<lparr>position := length (pre @ ''['' @ ?s @ '']'') + length (key_tail idxs)\<rparr>)"
      using Cons.IH [OF _ _ e3 Cons.prems(5)] Cons.prems(1,2) by simp
    then show ?thesis
      using c1 t c2 by (simp add: Key_index_loop.simps [of _ _ lx] PInt)
  qed (use Cons.prems in \<open>auto simp: is_index_def\<close>)
qed

lemma key_tail_nonempty: "list_all canonical_segment ks \<Longrightarrow> ks \<noteq> [] \<Longrightarrow> key_tail ks \<noteq> []"
  by (cases ks rule: key_tail.cases) auto

lemma dropWhile_is_index:
  assumes "list_all canonical_segment ks" and "dropWhile is_index ks = seg # ks'"
  shows "\<exists>s. seg = PStr s \<and> s \<noteq> [] \<and> list_all is_ascii s"
proof -
  have "\<not> is_index seg"
    using hd_dropWhile [of is_index ks] assms(2) by simp
  moreover have "seg \<in> set ks"
    using set_dropWhileD [of seg is_index ks] assms(2) by simp
  then have "canonical_segment seg"
    using assms(1) by (simp add: list_all_iff)
  ultimately show ?thesis
    by (cases seg) (auto simp: is_index_def)
qed

lemma Key_step_rest:
  assumes t: "Token float_of RESERVED_OPERATOR_CHARS False False False lx = Inr (nm, lx1)"
    and n: "Key_name d key nm (GetPosition lx) lx1 = Inr (Continue (key2, lx2))"
    and e: "expr lx2 = pre @ key_tail ks" and p: "position lx2 = length pre"
    and c: "list_all canonical_segment ks"
  shows "Key_step float_of d key lx =
           Inr (case dropWhile is_index ks of
                  [] \<Rightarrow> Break (key2 @ ks, lx2\<lparr>position := length (expr lx2)\<rparr>)
                | seg # ks' \<Rightarrow>
                    Continue (key2 @ takeWhile is_index ks,
                      lx2\<lparr>position := length pre + length (key_tail (takeWhile is_index ks)) + 1\<rparr>))"
proof (cases "ks = []")
  case True
  then have "EndOfInput lx2 None" and "lx2\<lparr>position := length (expr lx2)\<rparr> = lx2"
    using e p by (simp_all add: EndOfInput_def)
  then show ?thesis
    using t n True by (simp add: Key_step_def)
next
  case False
  let ?idxs = "takeWhile is_index ks" and ?rest = "dropWhile is_index ks"
  have ks: "ks = ?idxs @ ?rest"
    by simp
  have e': "expr lx2 = pre @ key_tail ?idxs @ key_tail ?rest"
    using e key_tail_append [of ?idxs ?rest] by simp
  have ci: "list_all canonical_segment ?idxs" "list_all is_index ?idxs"
    using c by (auto simp: list_all_iff dest: set_takeWhileD)
  have ne: "key_tail ks \<noteq> []"
    using key_tail_nonempty [OF c False] .
  have eoi: "\<not> EndOfInput lx2 None"
    using e p ne by (simp add: EndOfInput_def)
  have "hd (key_tail ks) \<notin> set '']''"
    using key_tail_head [OF c] ne by auto
  then have c3: "IsCharacter '']'' False False lx2 = Inr (None, lx2)"
    using IsCharacter_miss [OF e p, of "'']''" False False] ne by simp
  let ?lx4 = "lx2\<lparr>position := length pre + length (key_tail ?idxs)\<rparr>"
  show ?thesis
  proof (cases ?rest)
    case Nil
    have k: "Key_index_loop float_of key2 lx2 = Inr (key2 @ ?idxs, ?lx4)"
      using Key_index_loop_indices [OF ci e' p] Nil by simp
    have all: "?idxs = ks"
      using ks Nil by simp
    have e4: "expr ?lx4 = (pre @ key_tail ?idxs) @ []" "position ?lx4 = length (pre @ key_tail ?idxs)"
      using e' Nil by simp_all
    have d: "IsCharacter ''.'' False True ?lx4 = Inr (None, ?lx4)"
      using IsCharacter_miss [OF e4, of "''.''" False True] by simp
    have "?lx4 = lx2\<lparr>position := length (expr lx2)\<rparr>"
      using e' Nil by simp
    then show ?thesis
      unfolding Nil list.case using t n eoi c3 k d all by (simp add: Key_step_def)
  next
    case (Cons seg ks')
    obtain s where s: "seg = PStr s" "s \<noteq> []"
      using dropWhile_is_index [OF c Cons] by auto
    have rt: "key_tail ?rest = CHR ''.'' # render_name s @ key_tail ks'"
      using Cons s by simp
    have k: "Key_index_loop float_of key2 lx2 = Inr (key2 @ ?idxs, ?lx4)"
      using Key_index_loop_indices [OF ci e' p] rt by simp
    have e4: "expr ?lx4 = (pre @ key_tail ?idxs) @ CHR ''.'' # render_name s @ key_tail ks'"
      "position ?lx4 = length (pre @ key_tail ?idxs)"
      using e' rt by simp_all
    let ?lx5 = "lx2\<lparr>position := length pre + length (key_tail ?idxs) + 1\<rparr>"
    have d: "IsCharacter ''.'' False True ?lx4 = Inr (Some CHR ''.'', ?lx5)"
      using IsCharacter_hit(1) [OF e4, of "''.''" True] by simp
    have eoi5: "\<not> EndOfInput ?lx5 None"
      using e' rt render_name_nonempty [OF s(2)] by (simp add: EndOfInput_def)
    show ?thesis
      unfolding Cons list.case using t n eoi c3 k d eoi5 by (simp add: Key_step_def)
  qed
qed

lemma Key_loop_names:
  assumes "s \<noteq> []" and "list_all canonical_segment ks"
    and "expr lx = pre @ render_name s @ key_tail ks" and "position lx = length pre"
    and "acc \<noteq> [] \<or> aliases d s = None"
  shows "Key_loop float_of d acc lx = Inr (acc @ PStr s # ks, lx\<lparr>position := length (expr lx)\<rparr>)"
  using assms
proof (induction "length ks" arbitrary: s ks acc pre lx rule: less_induct)
  case less
  note e = less.prems(3) and p = less.prems(4) and c = less.prems(2)
  have eoi: "\<not> EndOfInput lx None"
    using e p render_name_nonempty [OF less.prems(1)] by (simp add: EndOfInput_def)
  let ?lx1 = "lx\<lparr>position := length pre + length (render_name s)\<rparr>"
  have st: "stops RESERVED_OPERATOR_CHARS (key_tail ks)"
    using stops_reserved key_tail_head [OF c] by blast
  have t: "Token float_of RESERVED_OPERATOR_CHARS False False False lx = Inr (PStr s, ?lx1)"
    using Token_name [OF less.prems(1) e p st] .
  have e1: "expr ?lx1 = (pre @ render_name s) @ key_tail ks"
    "position ?lx1 = length (pre @ render_name s)"
    using e by simp_all
  have "key_tail ks = [] \<or> hd (key_tail ks) \<notin> set ''(''"
    using key_tail_head [OF c] by auto
  then have paren: "IsCharacter ''('' True True ?lx1 = Inr (None, ?lx1)"
    using IsCharacter_miss [OF e1, of "''(''" True True] by simp
  have n: "Key_name d acc (PStr s) (GetPosition lx) ?lx1 = Inr (Continue (acc @ [PStr s], ?lx1))"
    using less.prems(1,5) paren by (auto simp: Key_name_def lookup_def)
  note step = Key_step_rest [OF t n e1 c]
  show ?case
  proof (cases "dropWhile is_index ks")
    case Nil
    have "Key_step float_of d acc lx
               = Inr (Break ((acc @ [PStr s]) @ ks, ?lx1\<lparr>position := length (expr ?lx1)\<rparr>))"
      using step [unfolded Nil list.case] .
    then show ?thesis
      using eoi by (simp add: Key_loop.simps [of _ _ acc lx])
  next
    case (Cons seg ks')
    let ?idxs = "takeWhile is_index ks"
    let ?lx5 = "?lx1\<lparr>position := length (pre @ render_name s) + length (key_tail ?idxs) + 1\<rparr>"
    obtain s' where s': "seg = PStr s'" "s' \<noteq> []"
      using dropWhile_is_index [OF c Cons] by auto
    have ks: "ks = ?idxs @ PStr s' # ks'"
      using takeWhile_dropWhile_id [of is_index ks, unfolded Cons s'(1)] by (rule sym)
    have st5: "Key_step float_of d acc lx = Inr (Continue ((acc @ [PStr s]) @ ?idxs, ?lx5))"
      using step [unfolded Cons list.case] .
    have len: "length ks' < length ks"
      using arg_cong [OF ks, of length] by simp
    have c': "list_all canonical_segment ks'"
      using c set_dropWhileD [of _ is_index ks] Cons by (auto simp: list_all_iff)
    have e5: "expr ?lx5 = (pre @ render_name s @ key_tail ?idxs @ ''.'') @ render_name s' @ key_tail ks'"
      using e arg_cong [OF ks, of key_tail] by (simp add: key_tail_append)
    have p5: "position ?lx5 = length (pre @ render_name s @ key_tail ?idxs @ ''.'')"
      by simp
    have "Key_loop float_of d ((acc @ [PStr s]) @ ?idxs) ?lx5
          = Inr (((acc @ [PStr s]) @ ?idxs) @ PStr s' # ks', ?lx5\<lparr>position := length (expr ?lx5)\<rparr>)"
      using less.hyps [OF len s'(2) c' e5 p5] by simp
    moreover have "((acc @ [PStr s]) @ ?idxs) @ PStr s' # ks' = acc @ PStr s # ks"
      using ks by simp
    ultimately show ?thesis
      using eoi st5 by (simp add: Key_loop.simps [of _ _ acc lx])
  qed
qed

lemma Key_loop_indices_first:
  assumes "list_all canonical_segment key" and "key \<noteq> []" and "is_index (hd key)"
    and "expr lx = key_tail key" and "position lx = 0"
  shows "Key_loop float_of d [] lx = Inr (key, lx\<lparr>position := length (expr lx)\<rparr>)"
proof -
  note c = assms(1)
  have ne: "key_tail key \<noteq> []"
    using key_tail_nonempty [OF c assms(2)] .
  have hd: "hd (key_tail key) = CHR ''[''"
    using assms(1,2,3) by (cases key rule: key_tail.cases) (auto simp: is_index_def)
  have eoi: "\<not> EndOfInput lx None"
    using assms(4,5) ne by (simp add: EndOfInput_def)
  have e0: "expr lx = [] @ key_tail key" "position lx = length ([] :: string)"
    using assms(4,5) by simp_all
  have st: "stops RESERVED_OPERATOR_CHARS (key_tail key)"
    using stops_reserved hd by blast
  have t: "Token float_of RESERVED_OPERATOR_CHARS False False False lx = Inr (PNone, lx)"
    using Token_nothing [OF e0 st, of False float_of False] by simp
  obtain rest where r: "key_tail key = CHR ''['' # rest"
    using ne hd by (cases "key_tail key") auto
  have b: "IsCharacter ''['' True False lx = Inr (Some CHR ''['', lx)"
    using IsCharacter_hit(2) [of lx "[]" "CHR ''[''" rest "''[''" False] assms(4,5) r by simp
  have n: "Key_name d [] PNone (GetPosition lx) lx = Inr (Continue ([], lx))"
    using b by (simp add: Key_name_def)
  note step = Key_step_rest [OF t n e0 c]
  show ?thesis
  proof (cases "dropWhile is_index key")
    case Nil
    have "Key_step float_of d [] lx = Inr (Break ([] @ key, lx\<lparr>position := length (expr lx)\<rparr>))"
      using step [unfolded Nil list.case] .
    then show ?thesis
      using eoi by (simp add: Key_loop.simps [of _ _ "[]" lx])
  next
    case (Cons seg ks')
    let ?idxs = "takeWhile is_index key"
    let ?lx5 = "lx\<lparr>position := length ([] :: string) + length (key_tail ?idxs) + 1\<rparr>"
    obtain s' where s': "seg = PStr s'" "s' \<noteq> []"
      using dropWhile_is_index [OF c Cons] by auto
    have ks: "key = ?idxs @ PStr s' # ks'"
      using takeWhile_dropWhile_id [of is_index key, unfolded Cons s'(1)] by (rule sym)
    have idx: "?idxs \<noteq> []"
      using assms(2,3) by (cases key) auto
    have st5: "Key_step float_of d [] lx = Inr (Continue ([] @ ?idxs, ?lx5))"
      using step [unfolded Cons list.case] .
    have c': "list_all canonical_segment ks'"
      using c set_dropWhileD [of _ is_index key] Cons by (auto simp: list_all_iff)
    have e5: "expr ?lx5 = (key_tail ?idxs @ ''.'') @ render_name s' @ key_tail ks'"
      using assms(4) arg_cong [OF ks, of key_tail] by (simp add: key_tail_append)
    have p5: "position ?lx5 = length (key_tail ?idxs @ ''.'')"
      by simp
    have "Key_loop float_of d ?idxs ?lx5
          = Inr (?idxs @ PStr s' # ks', ?lx5\<lparr>position := length (expr ?lx5)\<rparr>)"
      using Key_loop_names [OF s'(2) c' e5 p5, of ?idxs d float_of] idx by simp
    then show ?thesis
      using eoi st5 ks by (simp add: Key_loop.simps [of _ _ "[]" lx])
  qed
qed

subsection \<open>The rendering of a canonical key parses to the key\<close>

lemma Key_GetKeyName_canonical:
  assumes "list_all canonical_segment key"
    and "\<forall>s ks. key = PStr s # ks \<longrightarrow> aliases defaults s = None"
  shows "\<exists>k. GetKeyName key = Inr k
             \<and> Key float_of defaults \<lparr>expr = k, position = 0\<rparr>
                 = Inr (key, \<lparr>expr = k, position = length k\<rparr>)"
proof (cases key)
  case Nil
  have "Key float_of defaults \<lparr>expr = ''.'', position = 0\<rparr> = Inr ([], \<lparr>expr = ''.'', position = 1\<rparr>)"
    by code_simp
  then show ?thesis
    by (simp add: Nil GetKeyName_def)
next
  case (Cons seg ks)
  have ks: "list_all canonical_segment ks"
    using assms(1) Cons by simp
  show ?thesis
  proof (cases "is_index seg")
    case True
    let ?k = "key_tail key"
    have g: "GetKeyName key = Inr ?k"
      using GetKeyName_canonical [OF assms(1)] True Cons
      by (cases seg) (auto simp: is_index_def)
    have "Key_loop float_of defaults [] \<lparr>expr = ?k, position = 0\<rparr>
          = Inr (key, \<lparr>expr = ?k, position = 0\<rparr>\<lparr>position := length (expr \<lparr>expr = ?k, position = 0\<rparr>)\<rparr>)"
      using Key_loop_indices_first [OF assms(1), of "\<lparr>expr = ?k, position = 0\<rparr>" float_of defaults]
        True Cons by simp
    with g show ?thesis
      by (simp add: Key_def)
  next
    case False
    then obtain s where s: "seg = PStr s" "s \<noteq> []"
      using assms(1) Cons by (cases seg) (auto simp: is_index_def)
    let ?k = "render_name s @ key_tail ks"
    have g: "GetKeyName key = Inr ?k"
      using GetKeyName_canonical [OF assms(1)] Cons s by simp
    have a: "aliases defaults s = None"
      using assms(2) Cons s by simp
    have "Key_loop float_of defaults [] \<lparr>expr = ?k, position = 0\<rparr>
          = Inr ([] @ PStr s # ks,
                 \<lparr>expr = ?k, position = 0\<rparr>\<lparr>position := length (expr \<lparr>expr = ?k, position = 0\<rparr>)\<rparr>)"
      using Key_loop_names [OF s(2) ks, of "\<lparr>expr = ?k, position = 0\<rparr>" "[]" "[]" defaults float_of] a
      by simp
    with g show ?thesis
      by (simp add: Key_def Cons s)
  qed
qed

subsection \<open>A key that starts at a dot\<close>

text \<open>
  The first pass of the loop of \<^verbatim>\<open>Key\<close> at a \<^verbatim>\<open>.\<close>: the name token is empty, no
  \<^verbatim>\<open>[\<close> follows, the \<^verbatim>\<open>.\<close> is consumed, and the loop breaks with the empty key when the
  input ends there or a reserved operator character follows; any other character is an
  error.
\<close>

lemma stops_dot: "stops RESERVED_OPERATOR_CHARS (CHR ''.'' # rest)"
  by (simp add: stops_def RESERVED_OPERATOR_CHARS_def ESCAPE_def QUOTES_def SQUOTE_def DQUOTE_def)

lemma Key_step_dot:
  assumes "expr lx = pre @ CHR ''.'' # rest" and "position lx = length pre"
  shows "Key_step float_of defaults [] lx =
           (if rest = [] \<or> hd rest \<in> set RESERVED_OPERATOR_CHARS
            then Inr (Break ([], lx\<lparr>position := length pre + 1\<rparr>))
            else Inl (ExpressionSyntaxError NonEmptyKeyNameExpected (length pre)))"
proof -
  let ?lx1 = "lx\<lparr>position := length pre + 1\<rparr>"
  have t: "Token float_of RESERVED_OPERATOR_CHARS False False False lx = Inr (PNone, lx)"
    using Token_nothing [OF assms stops_dot] by simp
  have b: "IsCharacter ''['' True False lx = Inr (None, lx)"
    using IsCharacter_miss [OF assms, of "''[''" True False] by simp
  have d: "IsCharacter ''.'' False False lx = Inr (Some CHR ''.'', ?lx1)"
    using IsCharacter_hit(1) [OF assms, of "''.''" False] by simp
  have e: "expr ?lx1 = (pre @ ''.'') @ rest" "position ?lx1 = length (pre @ ''.'')"
    using assms by simp_all
  have eoi: "EndOfInput ?lx1 None \<longleftrightarrow> rest = []"
    using assms by (simp add: EndOfInput_def)
  have r: "IsCharacter RESERVED_OPERATOR_CHARS True True ?lx1
           = Inr (if hd rest \<in> set RESERVED_OPERATOR_CHARS then Some (hd rest) else None, ?lx1)"
    if "rest \<noteq> []"
    using that e by (cases rest) (auto simp: IsCharacter_def EndOfInput_def nth_append)
  show ?thesis
    using t b d eoi r by (simp add: Key_step_def Key_name_def Let_def GetPosition_def assms(2))
qed

section \<open>Evaluation over a store of objects\<close>

















subsection \<open>What evaluation writes\<close>

















subsection \<open>Two chains in a store\<close>







section \<open>The claims\<close>

text \<open>
  C1, as the code has it. For every key string \<open>k\<close> that \<^verbatim>\<open>Key\<close> parses to a key of
  slices, integer indices and non-empty ASCII names, the first of which is no alias,
  \<^verbatim>\<open>GetKeyName\<close> renders the parsed key as a string \<open>k'\<close> that \<^verbatim>\<open>Key\<close> parses, all of it,
  to the same key: \<open>k'\<close> is the canonical form of \<open>k\<close>, and rendering its parse gives \<open>k'\<close>
  again. When \<open>k\<close> is itself the rendering of such a key, that key is the one parsed and
  \<open>k'\<close> is \<open>k\<close>. The canonical form can differ from \<open>k\<close> in more than the quoting of
  names: \<^verbatim>\<open>a[03]\<close> parses to \<^verbatim>\<open>['a', 3]\<close>, which renders as \<^verbatim>\<open>a[3]\<close>, and the empty
  string parses to the empty key, which renders as \<^verbatim>\<open>.\<close>.
\<close>

theorem GetKeyName_Key_round_trip:
  assumes "Key float_of defaults \<lparr>expr = k, position = 0\<rparr> = Inr (key, lx')"
    and "list_all canonical_segment key"
    and "\<forall>s ks. key = PStr s # ks \<longrightarrow> aliases defaults s = None"
  shows "\<exists>k'. GetKeyName key = Inr k'
           \<and> Key float_of defaults \<lparr>expr = k', position = 0\<rparr>
               = Inr (key, \<lparr>expr = k', position = length k'\<rparr>)
           \<and> (\<forall>key0. list_all canonical_segment key0
                   \<and> (\<forall>s ks. key0 = PStr s # ks \<longrightarrow> aliases defaults s = None)
                   \<and> GetKeyName key0 = Inr k \<longrightarrow> key0 = key \<and> k' = k)"
proof -
  from Key_GetKeyName_canonical [OF assms(2,3), of float_of]
  obtain k' where g: "GetKeyName key = Inr k'"
    and p: "Key float_of defaults \<lparr>expr = k', position = 0\<rparr>
            = Inr (key, \<lparr>expr = k', position = length k'\<rparr>)"
    by blast
  have "key0 = key \<and> k' = k"
    if c: "list_all canonical_segment key0"
      and a: "\<forall>s ks. key0 = PStr s # ks \<longrightarrow> aliases defaults s = None"
      and r: "GetKeyName key0 = Inr k" for key0
  proof -
    from Key_GetKeyName_canonical [OF c a, of float_of] r
    have "Key float_of defaults \<lparr>expr = k, position = 0\<rparr>
          = Inr (key0, \<lparr>expr = k, position = length k\<rparr>)"
      by auto
    with assms(1) have "key0 = key"
      by simp
    with g r show ?thesis by simp
  qed
  with g p show ?thesis by blast
qed

theorem GetKeyName_Key_round_trip_witness:
  "Key (\<lambda>s. None) \<lparr>aliases = Map.empty, symbols = Map.empty\<rparr>
       \<lparr>expr = [SQUOTE] @ ''a b'' @ [SQUOTE] @ ''. c[ 03 ][ ]'', position = 0\<rparr>
     = Inr ([PStr ''a b'', PStr ''c'', PInt 3, PNone],
            \<lparr>expr = [SQUOTE] @ ''a b'' @ [SQUOTE] @ ''. c[ 03 ][ ]'', position = 17\<rparr>)
   \<and> GetKeyName [PStr ''a b'', PStr ''c'', PInt 3, PNone]
       = Inr ([DQUOTE] @ ''a b'' @ [DQUOTE] @ ''.c[3][]'')
   \<and> Key (\<lambda>s. None) \<lparr>aliases = Map.empty, symbols = Map.empty\<rparr>
         \<lparr>expr = [DQUOTE] @ ''a b'' @ [DQUOTE] @ ''.c[3][]'', position = 0\<rparr>
       = Inr ([PStr ''a b'', PStr ''c'', PInt 3, PNone],
              \<lparr>expr = [DQUOTE] @ ''a b'' @ [DQUOTE] @ ''.c[3][]'', position = 12\<rparr>)"
proof -
  let ?d = "\<lparr>aliases = Map.empty, symbols = Map.empty :: string \<rightharpoonup> pyfunc\<rparr>"
  let ?key = "[PStr ''a b'', PStr ''c'', PInt 3, PNone]"
  have k: "Key (\<lambda>s. None) ?d
       \<lparr>expr = [SQUOTE] @ ''a b'' @ [SQUOTE] @ ''. c[ 03 ][ ]'', position = 0\<rparr>
     = Inr (?key, \<lparr>expr = [SQUOTE] @ ''a b'' @ [SQUOTE] @ ''. c[ 03 ][ ]'', position = 17\<rparr>)"
    by code_simp
  have c: "list_all canonical_segment ?key"
    by (simp add: is_ascii_def)
  have a: "\<forall>s ks. ?key = PStr s # ks \<longrightarrow> aliases ?d s = None"
    by simp
  have g: "GetKeyName ?key = Inr ([DQUOTE] @ ''a b'' @ [DQUOTE] @ ''.c[3][]'')"
    by code_simp
  from GetKeyName_Key_round_trip [OF k c a] g k show ?thesis
    by auto
qed

theorem GetKeyName_Key_round_trip_counterexample:
  "Key (\<lambda>s. None) \<lparr>aliases = Map.empty, symbols = Map.empty\<rparr> \<lparr>expr = ''a[03]'', position = 0\<rparr>
     = Inr ([PStr ''a'', PInt 3], \<lparr>expr = ''a[03]'', position = 5\<rparr>)
   \<and> \<not> re_search_W ''a''
   \<and> GetKeyName [PStr ''a'', PInt 3] = Inr ''a[3]''
   \<and> ''a[3]'' \<noteq> ''a[03]''
   \<and> Key (\<lambda>s. None) \<lparr>aliases = Map.empty, symbols = Map.empty\<rparr> \<lparr>expr = '''', position = 0\<rparr>
       = Inr ([], \<lparr>expr = '''', position = 0\<rparr>)
   \<and> GetKeyName [] = Inr ''.''
   \<and> ''.'' \<noteq> ''''"
  by code_simp

text \<open>
  Each hypothesis on the parsed key is needed. A float index parses, and \<^verbatim>\<open>GetKeyName\<close>
  raises TypeError on it. An empty quoted index renders as an empty name, which \<^verbatim>\<open>Key\<close>
  rejects. A name that is not ASCII and has to be quoted makes the quoting raise
  UnicodeDecodeError. And when the first name of the parsed key is an alias, the
  rendering parses to the path of that alias.
\<close>

lemma GetKeyName_Key_other_keys:
  "Key (\<lambda>s. if s = ''1.5'' then Some (FloatFinite 3 (- 1)) else None)
       \<lparr>aliases = Map.empty, symbols = Map.empty\<rparr> \<lparr>expr = ''a[1.5]'', position = 0\<rparr>
     = Inr ([PStr ''a'', PFloat (FloatFinite 3 (- 1))], \<lparr>expr = ''a[1.5]'', position = 6\<rparr>)
   \<and> GetKeyName [PStr ''a'', PFloat (FloatFinite 3 (- 1))] = Inl TypeError
   \<and> Key (\<lambda>s. None) \<lparr>aliases = Map.empty, symbols = Map.empty\<rparr>
         \<lparr>expr = ''a['' @ [DQUOTE, DQUOTE] @ '']'', position = 0\<rparr>
       = Inr ([PStr ''a'', PStr []], \<lparr>expr = ''a['' @ [DQUOTE, DQUOTE] @ '']'', position = 5\<rparr>)
   \<and> GetKeyName [PStr ''a'', PStr []] = Inr ''a.''
   \<and> Key (\<lambda>s. None) \<lparr>aliases = Map.empty, symbols = Map.empty\<rparr> \<lparr>expr = ''a.'', position = 0\<rparr>
       = Inl (ExpressionSyntaxError NonEmptyKeyNameExpected 2)
   \<and> Key (\<lambda>s. None) \<lparr>aliases = Map.empty, symbols = Map.empty\<rparr>
         \<lparr>expr = [CHR 0xE9], position = 0\<rparr>
       = Inr ([PStr [CHR 0xE9]], \<lparr>expr = [CHR 0xE9], position = 1\<rparr>)
   \<and> GetKeyName [PStr [CHR 0xE9]] = Inl UnicodeDecodeError
   \<and> Key (\<lambda>s. None)
         \<lparr>aliases = [''a'' \<mapsto> [PStr ''b''], ''b'' \<mapsto> [PStr ''c'']], symbols = Map.empty\<rparr>
         \<lparr>expr = ''a'', position = 0\<rparr>
       = Inr ([PStr ''b''], \<lparr>expr = ''a'', position = 1\<rparr>)
   \<and> GetKeyName [PStr ''b''] = Inr ''b''
   \<and> Key (\<lambda>s. None)
         \<lparr>aliases = [''a'' \<mapsto> [PStr ''b''], ''b'' \<mapsto> [PStr ''c'']], symbols = Map.empty\<rparr>
         \<lparr>expr = ''b'', position = 0\<rparr>
       = Inr ([PStr ''c''], \<lparr>expr = ''b'', position = 1\<rparr>)"
  by code_simp

text \<open>
  C2, as the code has it. For a call marked list-mapped, with \<open>obj\<close> the running value
  that reaches it: a list-like \<open>obj\<close> is replaced by the list of the function applied to
  each of its items (with the stored arguments); an \<open>obj\<close> that is not list-like and is
  false (\<^verbatim>\<open>None\<close>, an empty string, zero) is passed through unchanged; an \<open>obj\<close> that is
  not list-like and is true has the function applied to \<open>obj\<close> itself, as if the call
  were not mapped. The claim says that every value that is not list-like passes through
  unchanged; \<^verbatim>\<open>map().upper()\<close> applied to the string \<^verbatim>\<open>a\<close> is \<^verbatim>\<open>A\<close>.
\<close>

theorem Evaluate_mapped_call:
  assumes "map_transform t = Some True"
    and "snd (Evaluate IsListLike \<lparr>conditional = c, transforms = ts\<rparr> subject) = Inr obj"
  shows "snd (Evaluate IsListLike \<lparr>conditional = c, transforms = ts @ [t]\<rparr> subject) =
           (if IsListLike obj then
              (case py_iter obj of
                 Inl e \<Rightarrow> Inl e
               | Inr items \<Rightarrow>
                   (case Evaluate_items t items [] of Inl e \<Rightarrow> Inl e | Inr vs \<Rightarrow> Inr (PList vs)))
            else if truth obj then
              (if restriction t then call (func t) (args t) (kwargs t)
               else call (func t) (obj # args t) (kwargs t))
            else Inr obj)
         \<and> ((\<forall>item \<in> set items. call (func t) (item # args t) (kwargs t) = Inr (g item)) \<longrightarrow>
              Evaluate_items t items [] = Inr (map g items))"
proof -
  have "snd (Evaluate IsListLike \<lparr>conditional = c, transforms = ts @ [t]\<rparr> subject)
        = Evaluate_step IsListLike t obj"
    using assms(2) Evaluate_loop_snoc [of 0 ts IsListLike c t subject] by (simp add: Evaluate_def)
  moreover have "(\<forall>item \<in> set items. call (func t) (item # args t) (kwargs t) = Inr (g item)) \<longrightarrow>
              Evaluate_items t items [] = Inr (map g items)"
    using Evaluate_items_all [of items t g "[]"] by auto
  ultimately show ?thesis
    using assms(1) by (simp add: Evaluate_step_def)
qed

theorem Evaluate_mapped_call_witness:
  "snd (Evaluate is_list \<lparr>conditional = None, transforms = [] @ [mapped_upper]\<rparr>
          (PList [PStr ''a'', PStr ''b''])) = Inr (PList [PStr ''A'', PStr ''B''])
   \<and> snd (Evaluate is_list \<lparr>conditional = None, transforms = [] @ [mapped_upper]\<rparr> (PStr ''''))
       = Inr (PStr '''')"
proof -
  have m: "map_transform mapped_upper = Some True"
    by (simp add: mapped_upper_def)
  have e: "snd (Evaluate is_list \<lparr>conditional = None, transforms = []\<rparr> v) = Inr v" for v
    by (simp add: Evaluate_def Evaluate_loop.simps)
  have c: "\<forall>item \<in> set [PStr ''a'', PStr ''b''].
             call (func mapped_upper) (item # args mapped_upper) (kwargs mapped_upper)
             = Inr (case item of PStr s \<Rightarrow> PStr (map upper_char s) | _ \<Rightarrow> PNone)"
    by (simp add: mapped_upper_def upper_def)
  have u: "upper_char CHR ''a'' = CHR ''A''" "upper_char CHR ''b'' = CHR ''B''"
    by code_simp+
  from Evaluate_mapped_call [OF m e, of "PList [PStr ''a'', PStr ''b'']" "[PStr ''a'', PStr ''b'']"
      "\<lambda>item. case item of PStr s \<Rightarrow> PStr (map upper_char s) | _ \<Rightarrow> PNone"] c
    Evaluate_mapped_call [OF m e, of "PStr ''''" "[]" "\<lambda>item. item"]
  show ?thesis
    by (simp add: is_list_def u)
qed

theorem Evaluate_mapped_call_counterexample:
  "\<not> is_list (PStr ''a'')
   \<and> map_transform mapped_upper = Some True
   \<and> snd (Evaluate is_list \<lparr>conditional = None, transforms = [mapped_upper]\<rparr> (PStr ''a''))
       = Inr (PStr ''A'')
   \<and> snd (Evaluate is_list \<lparr>conditional = None, transforms = [mapped_upper]\<rparr> (PStr ''a''))
       \<noteq> Inr (PStr ''a'')"
  by code_simp

text \<open>
  C3, as the code has it. \<^verbatim>\<open>Key()\<close> at a \<^verbatim>\<open>.\<close> that stands at the end of the input or
  before a reserved operator character consumes the \<^verbatim>\<open>.\<close> and returns the empty list:
  the key of the whole resource is the list with no segment (which \<^verbatim>\<open>GetKeyName\<close>
  renders as \<^verbatim>\<open>.\<close>), not a list of one segment; before any other character it raises
  ExpressionSyntaxError (``Non-empty key name expected''). White space or an empty
  quoted string before the \<^verbatim>\<open>.\<close> gives the empty list too. With no alias bound to an
  empty path, \<^verbatim>\<open>Key()\<close> returns the empty list in two cases only: it was called at the
  end of the input and consumed nothing, or the last character it consumed is a \<^verbatim>\<open>.\<close>
  that stands at the end of the input or before a reserved operator character. Every
  other key it returns has a segment.
\<close>

theorem Key_empty_only_for_dot:
  "(Key float_of defaults lx = Inr ([], lx') \<and> (\<forall>n. aliases defaults n \<noteq> Some []) \<longrightarrow>
      (EndOfInput lx None \<and> lx' = lx) \<or>
      (0 < position lx' \<and> expr lx' ! (position lx' - 1) = CHR ''.'' \<and>
       (EndOfInput lx' None \<or> expr lx' ! position lx' \<in> set RESERVED_OPERATOR_CHARS)))
   \<and> (expr lx = pre @ CHR ''.'' # rest \<and> position lx = length pre \<longrightarrow>
        Key float_of defaults lx =
          (if rest = [] \<or> hd rest \<in> set RESERVED_OPERATOR_CHARS
           then Inr ([], lx\<lparr>position := length pre + 1\<rparr>)
           else Inl (ExpressionSyntaxError NonEmptyKeyNameExpected (length pre))))
   \<and> Key float_of defaults \<lparr>expr = ''.'', position = 0\<rparr> = Inr ([], \<lparr>expr = ''.'', position = 1\<rparr>)
   \<and> Key float_of defaults \<lparr>expr = '' .'', position = 0\<rparr> = Inr ([], \<lparr>expr = '' .'', position = 2\<rparr>)
   \<and> Key float_of defaults \<lparr>expr = [DQUOTE, DQUOTE] @ ''.'', position = 0\<rparr>
       = Inr ([], \<lparr>expr = [DQUOTE, DQUOTE] @ ''.'', position = 3\<rparr>)
   \<and> GetKeyName [] = Inr ''.''"
proof -
  have dot: "Key float_of defaults \<lparr>expr = ''.'', position = 0\<rparr> = Inr ([], \<lparr>expr = ''.'', position = 1\<rparr>)"
    by code_simp
  have space: "Key float_of defaults \<lparr>expr = '' .'', position = 0\<rparr> = Inr ([], \<lparr>expr = '' .'', position = 2\<rparr>)"
    by code_simp
  have quotes: "Key float_of defaults \<lparr>expr = [DQUOTE, DQUOTE] @ ''.'', position = 0\<rparr>
       = Inr ([], \<lparr>expr = [DQUOTE, DQUOTE] @ ''.'', position = 3\<rparr>)"
    by code_simp
  have render: "GetKeyName [] = Inr ''.''"
    by (simp add: GetKeyName_def)
  have forward: "Key float_of defaults lx =
          (if rest = [] \<or> hd rest \<in> set RESERVED_OPERATOR_CHARS
           then Inr ([], lx\<lparr>position := length pre + 1\<rparr>)
           else Inl (ExpressionSyntaxError NonEmptyKeyNameExpected (length pre)))"
    if e: "expr lx = pre @ CHR ''.'' # rest" and p: "position lx = length pre"
  proof -
    have "\<not> EndOfInput lx None"
      using e p by (simp add: EndOfInput_def)
    then show ?thesis
      using Key_step_dot [OF e p, of float_of defaults]
      by (simp add: Key_def Key_loop.simps [of _ _ "[]" lx])
  qed
  have only: "(EndOfInput lx None \<and> lx' = lx) \<or>
        (0 < position lx' \<and> expr lx' ! (position lx' - 1) = CHR ''.'' \<and>
         (EndOfInput lx' None \<or> expr lx' ! position lx' \<in> set RESERVED_OPERATOR_CHARS))"
    if k0: "Key float_of defaults lx = Inr ([], lx')" and al: "\<forall>n. aliases defaults n \<noteq> Some []"
  proof (cases "EndOfInput lx None")
    case True
    then show ?thesis
      using k0 by (simp add: Key_def Key_loop.simps [of _ _ _ lx])
  next
    case False
    note k = k0 [unfolded Key_def Key_loop.simps [of _ _ "[]" lx]]
    obtain r where s: "Key_step float_of defaults [] lx = Inr r"
      using k False by (auto split: sum.splits)
    note first = Key_step_first [OF s al]
    show ?thesis
    proof (cases r)
      case (Break b)
      then have "b = ([], lx')"
        using k False s by simp
      with first Break show ?thesis by simp
    next
      case (Continue c)
      obtain key1 lx1 where c: "c = (key1, lx1)"
        by (cases c) auto
      have "Key_loop float_of defaults key1 lx1 = Inr ([], lx')"
        using k False s Continue c by simp
      from Key_loop_nonempty [OF this] first Continue c show ?thesis by auto
    qed
  qed
  from only forward dot space quotes render show ?thesis by blast
qed

theorem Key_empty_only_for_dot_witness:
  "Key (\<lambda>s. None) \<lparr>aliases = Map.empty, symbols = Map.empty\<rparr> \<lparr>expr = ''a.+'', position = 1\<rparr>
     = Inr ([], \<lparr>expr = ''a.+'', position = 2\<rparr>)
   \<and> Key (\<lambda>s. None) \<lparr>aliases = Map.empty, symbols = Map.empty\<rparr> \<lparr>expr = ''.x'', position = 0\<rparr>
     = Inl (ExpressionSyntaxError NonEmptyKeyNameExpected 0)
   \<and> 0 < position \<lparr>expr = ''a.+'', position = 2\<rparr>
   \<and> expr \<lparr>expr = ''a.+'', position = 2\<rparr> ! (position \<lparr>expr = ''a.+'', position = 2\<rparr> - 1) = CHR ''.''
   \<and> (EndOfInput \<lparr>expr = ''a.+'', position = 2\<rparr> None
       \<or> expr \<lparr>expr = ''a.+'', position = 2\<rparr> ! position \<lparr>expr = ''a.+'', position = 2\<rparr>
           \<in> set RESERVED_OPERATOR_CHARS)"
proof -
  let ?d = "\<lparr>aliases = Map.empty, symbols = Map.empty :: string \<rightharpoonup> pyfunc\<rparr>"
  have a: "\<forall>n. aliases ?d n \<noteq> Some []"
    by simp
  have r: "hd ''+'' \<in> set RESERVED_OPERATOR_CHARS" "hd ''x'' \<notin> set RESERVED_OPERATOR_CHARS"
    by (simp_all add: RESERVED_OPERATOR_CHARS_def)
  note t1 = Key_empty_only_for_dot [of "\<lambda>s. None" ?d "\<lparr>expr = ''a.+'', position = 1\<rparr>"
      "\<lparr>expr = ''a.+'', position = 2\<rparr>" "''a''" "''+''"]
  note t2 = Key_empty_only_for_dot [of "\<lambda>s. None" ?d "\<lparr>expr = ''.x'', position = 0\<rparr>"
      "\<lparr>expr = ''.x'', position = 0\<rparr>" "[]" "''x''"]
  have k1: "Key (\<lambda>s. None) ?d \<lparr>expr = ''a.+'', position = 1\<rparr> = Inr ([], \<lparr>expr = ''a.+'', position = 2\<rparr>)"
    using t1 r by simp
  have k2: "Key (\<lambda>s. None) ?d \<lparr>expr = ''.x'', position = 0\<rparr>
            = Inl (ExpressionSyntaxError NonEmptyKeyNameExpected 0)"
    using t2 r by simp
  have s: "\<not> EndOfInput \<lparr>expr = ''a.+'', position = 1\<rparr> None"
    by (simp add: EndOfInput_def)
  from t1 k1 a s have "0 < position \<lparr>expr = ''a.+'', position = 2\<rparr>
   \<and> expr \<lparr>expr = ''a.+'', position = 2\<rparr> ! (position \<lparr>expr = ''a.+'', position = 2\<rparr> - 1) = CHR ''.''
   \<and> (EndOfInput \<lparr>expr = ''a.+'', position = 2\<rparr> None
       \<or> expr \<lparr>expr = ''a.+'', position = 2\<rparr> ! position \<lparr>expr = ''a.+'', position = 2\<rparr>
           \<in> set RESERVED_OPERATOR_CHARS)"
    by blast
  with k1 k2 show ?thesis by blast
qed

theorem Key_empty_only_for_dot_counterexample:
  "Key (\<lambda>s. None) \<lparr>aliases = Map.empty, symbols = Map.empty\<rparr> \<lparr>expr = ''.'', position = 0\<rparr>
     = Inr ([], \<lparr>expr = ''.'', position = 1\<rparr>)
   \<and> length ([] :: pyval list) \<noteq> 1"
  by code_simp

text \<open>
  C4. \<^verbatim>\<open>Key()\<close> on \<^verbatim>\<open>a.b[3].c[].d\<close> returns the six segments
  \<^verbatim>\<open>['a', 'b', 3, 'c', None, 'd']\<close>: a name is a string, \<^verbatim>\<open>[NUMBER]\<close> the integer,
  \<^verbatim>\<open>[]\<close> the slice marker \<^verbatim>\<open>None\<close>, in the order of the input, and the whole
  input is consumed.
\<close>

theorem Key_parses_names_indices_slices:
  "Key float_of \<lparr>aliases = Map.empty, symbols = sy\<rparr> \<lparr>expr = ''a.b[3].c[].d'', position = 0\<rparr>
   = Inr ([PStr ''a'', PStr ''b'', PInt 3, PStr ''c'', PNone, PStr ''d''],
          \<lparr>expr = ''a.b[3].c[].d'', position = 12\<rparr>)"
  by code_simp

text \<open>
  C5. \<^verbatim>\<open>Token()\<close> joins adjacent quoted parts into one token: \<^verbatim>\<open>"foo"" & ""bar"\<close> is the
  token \<^verbatim>\<open>foo & bar\<close>. An escaped quote is an ordinary character: \<^verbatim>\<open>a\"b\<close> is the token
  \<^verbatim>\<open>a"b\<close>, the scan ends with the quoted flag false, and with conversion requested the
  token goes through the numeric conversion (no integer reads \<^verbatim>\<open>a"b\<close>, so the result is
  what \<^verbatim>\<open>float()\<close> makes of it, or the string). Only a backslash or a quote is unescaped:
  \<^verbatim>\<open>a\\c\<close> is the token \<^verbatim>\<open>a\c\<close> and \<^verbatim>\<open>a\'b\<close> the token \<^verbatim>\<open>a'b\<close>, but \<^verbatim>\<open>a\c\<close> keeps its
  backslash, as does a backslash at the end of the input, and, inside double quotes, a
  backslash before a single quote. In general, at a backslash that another character
  follows, the scan takes the two characters, leaves the open quote, the quoted flag and
  the parenthesis count as they are, and appends the second character alone when it is a
  backslash, the open quote, or any quote with no quote open, and both characters
  otherwise.
\<close>

theorem Token_quotes_and_escapes:
  "Token float_of '''' False True False
     \<lparr>expr = [DQUOTE] @ ''foo'' @ [DQUOTE, DQUOTE] @ '' & '' @ [DQUOTE, DQUOTE] @ ''bar'' @ [DQUOTE],
      position = 0\<rparr>
   = Inr (PStr ''foo & bar'',
          \<lparr>expr = [DQUOTE] @ ''foo'' @ [DQUOTE, DQUOTE] @ '' & '' @ [DQUOTE, DQUOTE] @ ''bar'' @ [DQUOTE],
           position = 15\<rparr>)
   \<and> Token_loop \<lparr>expr = ''a'' @ [ESCAPE, DQUOTE] @ ''b'', position = 0\<rparr> '''' False
         (None, False, None, 0, 0)
       = (None, False, Some (''a'' @ [DQUOTE] @ ''b''), 0, 4)
   \<and> Token float_of '''' False True False \<lparr>expr = ''a'' @ [ESCAPE, DQUOTE] @ ''b'', position = 0\<rparr>
       = Inr (PStr (''a'' @ [DQUOTE] @ ''b''), \<lparr>expr = ''a'' @ [ESCAPE, DQUOTE] @ ''b'', position = 4\<rparr>)
   \<and> Token float_of '''' False True True \<lparr>expr = ''a'' @ [ESCAPE, DQUOTE] @ ''b'', position = 0\<rparr>
       = Inr (case float_of (''a'' @ [DQUOTE] @ ''b'') of
                Some f \<Rightarrow> PFloat f
              | None \<Rightarrow> PStr (''a'' @ [DQUOTE] @ ''b''),
              \<lparr>expr = ''a'' @ [ESCAPE, DQUOTE] @ ''b'', position = 4\<rparr>)
   \<and> Token float_of '''' False True False \<lparr>expr = ''a'' @ [ESCAPE] @ ''c'', position = 0\<rparr>
       = Inr (PStr (''a'' @ [ESCAPE] @ ''c''), \<lparr>expr = ''a'' @ [ESCAPE] @ ''c'', position = 3\<rparr>)
   \<and> Token float_of '''' False True False \<lparr>expr = ''a'' @ [ESCAPE, ESCAPE] @ ''c'', position = 0\<rparr>
       = Inr (PStr (''a'' @ [ESCAPE] @ ''c''), \<lparr>expr = ''a'' @ [ESCAPE, ESCAPE] @ ''c'', position = 4\<rparr>)
   \<and> Token float_of '''' False True False \<lparr>expr = ''a'' @ [ESCAPE, SQUOTE] @ ''b'', position = 0\<rparr>
       = Inr (PStr (''a'' @ [SQUOTE] @ ''b''), \<lparr>expr = ''a'' @ [ESCAPE, SQUOTE] @ ''b'', position = 4\<rparr>)
   \<and> Token float_of '''' False True False
         \<lparr>expr = [DQUOTE] @ ''a'' @ [ESCAPE, DQUOTE] @ ''b'' @ [ESCAPE, SQUOTE] @ ''c'' @ [DQUOTE],
          position = 0\<rparr>
       = Inr (PStr (''a'' @ [DQUOTE] @ ''b'' @ [ESCAPE, SQUOTE] @ ''c''),
              \<lparr>expr = [DQUOTE] @ ''a'' @ [ESCAPE, DQUOTE] @ ''b'' @ [ESCAPE, SQUOTE] @ ''c'' @ [DQUOTE],
               position = 9\<rparr>)
   \<and> Token float_of '''' False True False \<lparr>expr = ''a'' @ [ESCAPE], position = 0\<rparr>
       = Inr (PStr (''a'' @ [ESCAPE]), \<lparr>expr = ''a'' @ [ESCAPE], position = 2\<rparr>)
   \<and> (expr lx ! i = ESCAPE \<and> i + 1 < length (expr lx) \<longrightarrow>
        Token_step lx T bp (quote, quoted, token, pc, i)
        = Continue (quote, quoted,
            Some (started token @
              (if expr lx ! (i + 1) = ESCAPE \<or> Some (expr lx ! (i + 1)) = quote
                  \<or> (quote = None \<and> expr lx ! (i + 1) \<in> set QUOTES)
               then [expr lx ! (i + 1)] else [ESCAPE, expr lx ! (i + 1)])),
            pc, i + 2))"
proof -
  have step: "Token_step lx T bp (quote, quoted, token, pc, i)
        = Continue (quote, quoted,
            Some (started token @
              (if expr lx ! (i + 1) = ESCAPE \<or> Some (expr lx ! (i + 1)) = quote
                  \<or> (quote = None \<and> expr lx ! (i + 1) \<in> set QUOTES)
               then [expr lx ! (i + 1)] else [ESCAPE, expr lx ! (i + 1)])),
            pc, i + 2)"
    if "expr lx ! i = ESCAPE" "i + 1 < length (expr lx)"
    using that by (auto simp: Token_step_def Let_def EndOfInput_def)
  have ex: "Token float_of '''' False True False
     \<lparr>expr = [DQUOTE] @ ''foo'' @ [DQUOTE, DQUOTE] @ '' & '' @ [DQUOTE, DQUOTE] @ ''bar'' @ [DQUOTE],
      position = 0\<rparr>
   = Inr (PStr ''foo & bar'',
          \<lparr>expr = [DQUOTE] @ ''foo'' @ [DQUOTE, DQUOTE] @ '' & '' @ [DQUOTE, DQUOTE] @ ''bar'' @ [DQUOTE],
           position = 15\<rparr>)
   \<and> Token_loop \<lparr>expr = ''a'' @ [ESCAPE, DQUOTE] @ ''b'', position = 0\<rparr> '''' False
         (None, False, None, 0, 0)
       = (None, False, Some (''a'' @ [DQUOTE] @ ''b''), 0, 4)
   \<and> Token float_of '''' False True False \<lparr>expr = ''a'' @ [ESCAPE, DQUOTE] @ ''b'', position = 0\<rparr>
       = Inr (PStr (''a'' @ [DQUOTE] @ ''b''), \<lparr>expr = ''a'' @ [ESCAPE, DQUOTE] @ ''b'', position = 4\<rparr>)
   \<and> Token float_of '''' False True True \<lparr>expr = ''a'' @ [ESCAPE, DQUOTE] @ ''b'', position = 0\<rparr>
       = Inr (case float_of (''a'' @ [DQUOTE] @ ''b'') of
                Some f \<Rightarrow> PFloat f
              | None \<Rightarrow> PStr (''a'' @ [DQUOTE] @ ''b''),
              \<lparr>expr = ''a'' @ [ESCAPE, DQUOTE] @ ''b'', position = 4\<rparr>)"
    by (code_simp, simp add: DQUOTE_def split: option.split)
  have esc: "Token float_of '''' False True False \<lparr>expr = ''a'' @ [ESCAPE] @ ''c'', position = 0\<rparr>
       = Inr (PStr (''a'' @ [ESCAPE] @ ''c''), \<lparr>expr = ''a'' @ [ESCAPE] @ ''c'', position = 3\<rparr>)
   \<and> Token float_of '''' False True False \<lparr>expr = ''a'' @ [ESCAPE, ESCAPE] @ ''c'', position = 0\<rparr>
       = Inr (PStr (''a'' @ [ESCAPE] @ ''c''), \<lparr>expr = ''a'' @ [ESCAPE, ESCAPE] @ ''c'', position = 4\<rparr>)
   \<and> Token float_of '''' False True False \<lparr>expr = ''a'' @ [ESCAPE, SQUOTE] @ ''b'', position = 0\<rparr>
       = Inr (PStr (''a'' @ [SQUOTE] @ ''b''), \<lparr>expr = ''a'' @ [ESCAPE, SQUOTE] @ ''b'', position = 4\<rparr>)
   \<and> Token float_of '''' False True False
         \<lparr>expr = [DQUOTE] @ ''a'' @ [ESCAPE, DQUOTE] @ ''b'' @ [ESCAPE, SQUOTE] @ ''c'' @ [DQUOTE],
          position = 0\<rparr>
       = Inr (PStr (''a'' @ [DQUOTE] @ ''b'' @ [ESCAPE, SQUOTE] @ ''c''),
              \<lparr>expr = [DQUOTE] @ ''a'' @ [ESCAPE, DQUOTE] @ ''b'' @ [ESCAPE, SQUOTE] @ ''c'' @ [DQUOTE],
               position = 9\<rparr>)
   \<and> Token float_of '''' False True False \<lparr>expr = ''a'' @ [ESCAPE], position = 0\<rparr>
       = Inr (PStr (''a'' @ [ESCAPE]), \<lparr>expr = ''a'' @ [ESCAPE], position = 2\<rparr>)"
    by code_simp
  from step ex esc show ?thesis by blast
qed

theorem Token_quotes_and_escapes_witness:
  "Token_step \<lparr>expr = ''a'' @ [ESCAPE] @ ''c'', position = 0\<rparr> '''' False (None, False, Some ''a'', 0, 1)
     = Continue (None, False, Some (''a'' @ [ESCAPE] @ ''c''), 0, 3)
   \<and> Token_step \<lparr>expr = ''a'' @ [ESCAPE, DQUOTE] @ ''b'', position = 0\<rparr> '''' False
         (None, False, Some ''a'', 0, 1)
     = Continue (None, False, Some (''a'' @ [DQUOTE]), 0, 3)"
proof -
  have a: "expr \<lparr>expr = ''a'' @ [ESCAPE] @ ''c'', position = 0\<rparr> ! 1 = ESCAPE
           \<and> 1 + 1 < length (expr \<lparr>expr = ''a'' @ [ESCAPE] @ ''c'', position = 0\<rparr>)"
    by simp
  have b: "expr \<lparr>expr = ''a'' @ [ESCAPE, DQUOTE] @ ''b'', position = 0\<rparr> ! 1 = ESCAPE
           \<and> 1 + 1 < length (expr \<lparr>expr = ''a'' @ [ESCAPE, DQUOTE] @ ''b'', position = 0\<rparr>)"
    by simp
  from Token_quotes_and_escapes [of "\<lambda>s. None" "\<lparr>expr = ''a'' @ [ESCAPE] @ ''c'', position = 0\<rparr>" 1
      "''''" False None False "Some ''a''" 0] a
    Token_quotes_and_escapes [of "\<lambda>s. None" "\<lparr>expr = ''a'' @ [ESCAPE, DQUOTE] @ ''b'', position = 0\<rparr>" 1
      "''''" False None False "Some ''a''" 0] b
  show ?thesis
    by (simp add: started_def ESCAPE_def DQUOTE_def QUOTES_def SQUOTE_def)
qed

text \<open>
  C6. \<^verbatim>\<open>Args()\<close>, called after the opening parenthesis: \<^verbatim>\<open>()\<close> gives the empty list;
  \<^verbatim>\<open>(1,2,3)\<close> gives the three arguments in order (strings, or integers with
  conversion); \<^verbatim>\<open>(1,,3)\<close> and \<^verbatim>\<open>(1,)\<close> raise ExpressionSyntaxError
  (``Argument expected''), and then no list is returned.
\<close>

theorem Args_lists_and_errors:
  "Args float_of False \<lparr>expr = ''()'', position = 1\<rparr> = Inr ([], \<lparr>expr = ''()'', position = 2\<rparr>)
   \<and> Args float_of False \<lparr>expr = ''(1,2,3)'', position = 1\<rparr>
       = Inr ([PStr ''1'', PStr ''2'', PStr ''3''], \<lparr>expr = ''(1,2,3)'', position = 7\<rparr>)
   \<and> Args float_of True \<lparr>expr = ''(1,2,3)'', position = 1\<rparr>
       = Inr ([PInt 1, PInt 2, PInt 3], \<lparr>expr = ''(1,2,3)'', position = 7\<rparr>)
   \<and> Args float_of convert \<lparr>expr = ''(1,,3)'', position = 1\<rparr>
       = Inl (ExpressionSyntaxError ArgumentExpected 3)
   \<and> Args float_of convert \<lparr>expr = ''(1,)'', position = 1\<rparr>
       = Inl (ExpressionSyntaxError ArgumentExpected 3)"
  apply (cases convert)
   apply (simp_all only:)
   apply code_simp
  apply code_simp
  done

text \<open>
  C7. With conversion requested, \<^verbatim>\<open>Token()\<close> returns a token with no quoted part as the
  integer its characters read as; when they read as no integer, as what \<^verbatim>\<open>float()\<close>
  makes of them; and as the string when that fails too. A token with a quoted part, or an
  empty one, is returned as its string. So \<^verbatim>\<open>42\<close> is the integer 42, \<^verbatim>\<open>3.14\<close> is the
  float that \<^verbatim>\<open>float('3.14')\<close> returns, and \<^verbatim>\<open>"42"\<close> is the string \<^verbatim>\<open>42\<close>. The
  hypothesis names what the scan found: no open quote, the characters \<open>t\<close>, the flag.
\<close>

theorem Token_numeric_conversion:
  assumes "Token_loop lx T bp (None, False, None, 0, GetPosition lx) = (None, quoted, Some t, pc, i)"
  shows "(\<exists>lx'. Token float_of T bp sp True lx =
            Inr (if quoted \<or> t = [] then PStr t
                 else (case py_int t of
                         Some n \<Rightarrow> PInt n
                       | None \<Rightarrow> (case float_of t of Some f \<Rightarrow> PFloat f | None \<Rightarrow> PStr t)), lx'))
         \<and> Token float_of '''' False True True \<lparr>expr = ''42'', position = 0\<rparr>
             = Inr (PInt 42, \<lparr>expr = ''42'', position = 2\<rparr>)
         \<and> Token float_of '''' False True True \<lparr>expr = ''3.14'', position = 0\<rparr>
             = Inr (case float_of ''3.14'' of Some f \<Rightarrow> PFloat f | None \<Rightarrow> PStr ''3.14'',
                    \<lparr>expr = ''3.14'', position = 4\<rparr>)
         \<and> Token float_of '''' False True True \<lparr>expr = [DQUOTE] @ ''42'' @ [DQUOTE], position = 0\<rparr>
             = Inr (PStr ''42'', \<lparr>expr = [DQUOTE] @ ''42'' @ [DQUOTE], position = 4\<rparr>)"
proof -
  have general: "\<exists>lx'. Token float_of T bp sp True lx =
            Inr (if quoted \<or> t = [] then PStr t
                 else (case py_int t of
                         Some n \<Rightarrow> PInt n
                       | None \<Rightarrow> (case float_of t of Some f \<Rightarrow> PFloat f | None \<Rightarrow> PStr t)), lx')"
    using assms by (auto simp: Token_eq Token_convert_def Let_def split: option.splits)
  have int: "Token float_of '''' False True True \<lparr>expr = ''42'', position = 0\<rparr>
             = Inr (PInt 42, \<lparr>expr = ''42'', position = 2\<rparr>)"
    by code_simp
  have float: "Token float_of '''' False True True \<lparr>expr = ''3.14'', position = 0\<rparr>
             = Inr (case float_of ''3.14'' of Some f \<Rightarrow> PFloat f | None \<Rightarrow> PStr ''3.14'',
                    \<lparr>expr = ''3.14'', position = 4\<rparr>)"
    by code_simp
  have str: "Token float_of '''' False True True \<lparr>expr = [DQUOTE] @ ''42'' @ [DQUOTE], position = 0\<rparr>
             = Inr (PStr ''42'', \<lparr>expr = [DQUOTE] @ ''42'' @ [DQUOTE], position = 4\<rparr>)"
    by code_simp
  from general int float str show ?thesis by blast
qed

theorem Token_numeric_conversion_witness:
  "\<exists>lx'. Token (\<lambda>s. None) '''' False True True \<lparr>expr = ''-7 '', position = 0\<rparr> = Inr (PInt (- 7), lx')"
proof -
  have h: "Token_loop \<lparr>expr = ''-7 '', position = 0\<rparr> '''' False
             (None, False, None, 0, GetPosition \<lparr>expr = ''-7 '', position = 0\<rparr>)
           = (None, False, Some ''-7'', 0, 2)"
    by code_simp
  have v: "py_int ''-7'' = Some (- 7)"
    by code_simp
  from Token_numeric_conversion [OF h, of "\<lambda>s. None" True] show ?thesis
    by (simp add: v)
qed

text \<open>
  C8. An alias is substituted only for the first name of a key, and only when no
  \<^verbatim>\<open>(\<close> follows it. With \<^verbatim>\<open>x\<close> an alias of \<^verbatim>\<open>a.b\<close>: \<^verbatim>\<open>x.c\<close> parses to \<^verbatim>\<open>[a, b, c]\<close>;
  in \<^verbatim>\<open>y.x.c\<close> the name \<^verbatim>\<open>x\<close> stays; in \<^verbatim>\<open>x(1)\<close> the name \<^verbatim>\<open>x\<close> stays, as the name
  of a function. In general, once the key has a segment the aliases are not looked at:
  the rest of the parse is the same with no alias at all.
\<close>

theorem Key_alias_only_first:
  "Key float_of \<lparr>aliases = [''x'' \<mapsto> [PStr ''a'', PStr ''b'']], symbols = sy\<rparr>
       \<lparr>expr = ''x.c'', position = 0\<rparr>
     = Inr ([PStr ''a'', PStr ''b'', PStr ''c''], \<lparr>expr = ''x.c'', position = 3\<rparr>)
   \<and> Key float_of \<lparr>aliases = [''x'' \<mapsto> [PStr ''a'', PStr ''b'']], symbols = sy\<rparr>
       \<lparr>expr = ''y.x.c'', position = 0\<rparr>
     = Inr ([PStr ''y'', PStr ''x'', PStr ''c''], \<lparr>expr = ''y.x.c'', position = 5\<rparr>)
   \<and> Key float_of \<lparr>aliases = [''x'' \<mapsto> [PStr ''a'', PStr ''b'']], symbols = sy\<rparr>
       \<lparr>expr = ''x(1)'', position = 0\<rparr>
     = Inr ([PStr ''x''], \<lparr>expr = ''x(1)'', position = 1\<rparr>)
   \<and> (key \<noteq> [] \<longrightarrow> Key_loop float_of defaults key lx
         = Key_loop float_of (defaults\<lparr>aliases := Map.empty\<rparr>) key lx)"
proof -
  have a: "Key float_of \<lparr>aliases = [''x'' \<mapsto> [PStr ''a'', PStr ''b'']], symbols = sy\<rparr>
       \<lparr>expr = ''x.c'', position = 0\<rparr>
     = Inr ([PStr ''a'', PStr ''b'', PStr ''c''], \<lparr>expr = ''x.c'', position = 3\<rparr>)"
    by code_simp
  have b: "Key float_of \<lparr>aliases = [''x'' \<mapsto> [PStr ''a'', PStr ''b'']], symbols = sy\<rparr>
       \<lparr>expr = ''y.x.c'', position = 0\<rparr>
     = Inr ([PStr ''y'', PStr ''x'', PStr ''c''], \<lparr>expr = ''y.x.c'', position = 5\<rparr>)"
    by code_simp
  have c: "Key float_of \<lparr>aliases = [''x'' \<mapsto> [PStr ''a'', PStr ''b'']], symbols = sy\<rparr>
       \<lparr>expr = ''x(1)'', position = 0\<rparr>
     = Inr ([PStr ''x''], \<lparr>expr = ''x(1)'', position = 1\<rparr>)"
    by code_simp
  from a b c Key_loop_defaults [of key float_of defaults lx "defaults\<lparr>aliases := Map.empty\<rparr>"]
  show ?thesis by blast
qed

theorem Key_alias_only_first_witness:
  "Key_loop (\<lambda>s. None) \<lparr>aliases = [''x'' \<mapsto> [PStr ''a'', PStr ''b'']], symbols = Map.empty\<rparr>
     [PStr ''y''] \<lparr>expr = ''y.x.c'', position = 2\<rparr>
   = Inr ([PStr ''y'', PStr ''x'', PStr ''c''], \<lparr>expr = ''y.x.c'', position = 5\<rparr>)"
proof -
  have e: "Key_loop (\<lambda>s. None) \<lparr>aliases = Map.empty, symbols = Map.empty\<rparr>
     [PStr ''y''] \<lparr>expr = ''y.x.c'', position = 2\<rparr>
   = Inr ([PStr ''y'', PStr ''x'', PStr ''c''], \<lparr>expr = ''y.x.c'', position = 5\<rparr>)"
    by code_simp
  from Key_alias_only_first [of "\<lambda>s. None" Map.empty "[PStr ''y'']"
      "\<lparr>aliases = [''x'' \<mapsto> [PStr ''a'', PStr ''b'']], symbols = Map.empty\<rparr>"
      "\<lparr>expr = ''y.x.c'', position = 2\<rparr>"]
  show ?thesis by (simp add: e)
qed




text \<open>
  C10. In a chain returned by \<^verbatim>\<open>Transform()\<close> a call with the restriction flag is the
  first of the list, and there is one only when the caller passed the flag: every call
  after the first is parsed with restriction false. So \<^verbatim>\<open>Evaluate\<close> gives every later
  call the running value: where it applies the call to the value and not to its items,
  it calls the function with the value before the stored arguments.
\<close>

theorem Transform_restriction_first_only:
  assumes "Transform float_of defaults func_name active' restriction' lx = Inr (calls, lx')"
  shows "\<forall>i < length (transforms calls).
           (restriction (transforms calls ! i) \<longrightarrow> restriction' \<and> i = 0)
           \<and> (0 < i \<longrightarrow>
                (\<forall>obj. \<not> (map_transform (transforms calls ! i) = Some True \<and> IsListLike obj)
                       \<and> (truth obj \<or> map_transform (transforms calls ! i) \<noteq> Some True) \<longrightarrow>
                   Evaluate_step IsListLike (transforms calls ! i) obj
                   = call (func (transforms calls ! i)) (obj # args (transforms calls ! i))
                       (kwargs (transforms calls ! i))))"
proof -
  from Transform_loop_restriction [OF assms [unfolded Transform_def Let_def]]
  have r: "\<forall>i < length (transforms calls). restriction (transforms calls ! i) \<longrightarrow> restriction' \<and> i = 0"
    by simp
  then show ?thesis
    by (auto simp: Evaluate_step_def)
qed

theorem Transform_restriction_first_only_witness:
  "\<exists>calls lx'.
     Transform (\<lambda>s. None) \<lparr>aliases = Map.empty, symbols = [''upper'' \<mapsto> upper]\<rparr> (PStr ''upper'')
       (Some 0) True \<lparr>expr = ''upper().upper()'', position = 6\<rparr> = Inr (calls, lx')
     \<and> length (transforms calls) = 2
     \<and> restriction (transforms calls ! 0)
     \<and> \<not> restriction (transforms calls ! 1)"
proof -
  have "case Transform (\<lambda>s. None) \<lparr>aliases = Map.empty, symbols = [''upper'' \<mapsto> upper]\<rparr>
               (PStr ''upper'') (Some 0) True \<lparr>expr = ''upper().upper()'', position = 6\<rparr> of
          Inl e \<Rightarrow> False
        | Inr (calls, lx') \<Rightarrow> map restriction (transforms calls) = [True, False]"
    by code_simp
  then obtain calls lx'
    where t: "Transform (\<lambda>s. None) \<lparr>aliases = Map.empty, symbols = [''upper'' \<mapsto> upper]\<rparr>
               (PStr ''upper'') (Some 0) True \<lparr>expr = ''upper().upper()'', position = 6\<rparr>
              = Inr (calls, lx')"
      and m: "map restriction (transforms calls) = [True, False]"
    by (auto split: sum.splits)
  have len: "length (transforms calls) = 2"
    using arg_cong [OF m, of length] by simp
  have r0: "restriction (transforms calls ! 0)"
    using arg_cong [OF m, of "\<lambda>xs. xs ! 0"] len by simp
  from Transform_restriction_first_only [OF t, of is_list, THEN spec, of 1] len
  have "\<not> restriction (transforms calls ! 1)"
    by simp
  with t len r0 show ?thesis by blast
qed

end
